theory Spec2Isabelle
  imports Complex_Main "HOL-Library.Sublist"
begin

section \<open>Strings\<close>

text \<open>
  A JavaScript string is modelled as a list of ASCII characters. The character classes
  \<^verbatim>\<open>\s\<close>, \<^verbatim>\<open>\d\<close> and \<^verbatim>\<open>\w\<close> and the case mappings below are those of ECMAScript on
  the ASCII range; a character outside the tables has no case mapping and belongs to no class.
\<close>

definition lower_letters :: string where
  "lower_letters = ''abcdefghijklmnopqrstuvwxyz''"

definition upper_letters :: string where
  "upper_letters = ''ABCDEFGHIJKLMNOPQRSTUVWXYZ''"

definition digits :: string where
  "digits = ''0123456789''"

definition isLower :: "char \<Rightarrow> bool" where
  "isLower c = (c \<in> set lower_letters)"

definition isUpper :: "char \<Rightarrow> bool" where
  "isUpper c = (c \<in> set upper_letters)"

definition isAlpha :: "char \<Rightarrow> bool" where
  "isAlpha c = (isLower c \<or> isUpper c)"

definition isDigit :: "char \<Rightarrow> bool" where
  "isDigit c = (c \<in> set digits)"

text \<open>\<^verbatim>\<open>\s\<close>: space, tab, line feed, vertical tab, form feed, carriage return.\<close>

definition isSpace :: "char \<Rightarrow> bool" where
  "isSpace c = (c \<in> set [CHR '' '', CHR 0x09, CHR 0x0A, CHR 0x0B, CHR 0x0C, CHR 0x0D])"

text \<open>\<^verbatim>\<open>\w\<close>: letters, digits and the underscore; \<^verbatim>\<open>\b\<close> is a change of this class.\<close>

definition isWord :: "char \<Rightarrow> bool" where
  "isWord c = (isAlpha c \<or> isDigit c \<or> c = CHR ''_'')"

definition upperChar :: "char \<Rightarrow> char" where
  "upperChar c = (case map_of (zip lower_letters upper_letters) c of Some d \<Rightarrow> d | None \<Rightarrow> c)"

definition lowerChar :: "char \<Rightarrow> char" where
  "lowerChar c = (case map_of (zip upper_letters lower_letters) c of Some d \<Rightarrow> d | None \<Rightarrow> c)"

definition toUpperCase :: "string \<Rightarrow> string" where
  "toUpperCase s = map upperChar s"

definition toLowerCase :: "string \<Rightarrow> string" where
  "toLowerCase s = map lowerChar s"

text \<open>\<^verbatim>\<open>String.prototype.trim\<close>.\<close>

definition trim :: "string \<Rightarrow> string" where
  "trim s = rev (dropWhile isSpace (rev (dropWhile isSpace s)))"

text \<open>\<^verbatim>\<open>String.prototype.includes\<close>: \<open>t\<close> occurs in \<open>s\<close> as a contiguous substring.\<close>

fun str_includes :: "string \<Rightarrow> string \<Rightarrow> bool" where
  "str_includes [] t = (t = [])"
| "str_includes (c # cs) t = (prefix t (c # cs) \<or> str_includes cs t)"

text \<open>
  \<^verbatim>\<open>s.replace(/[...]+/g, r)\<close>: every maximal run of characters of the class \<open>P\<close> is
  replaced by \<open>r\<close>.
\<close>

function replaceRuns :: "(char \<Rightarrow> bool) \<Rightarrow> string \<Rightarrow> string \<Rightarrow> string" where
  "replaceRuns P r [] = []"
| "replaceRuns P r (c # cs) =
     (if P c then r @ replaceRuns P r (dropWhile P cs) else c # replaceRuns P r cs)"
  by pat_completeness auto
termination
  by (relation "measure (\<lambda>(P, r, s). length s)")
     (auto simp: less_Suc_eq_le length_dropWhile_le)

text \<open>
  \<^verbatim>\<open>s.split(d)\<close> for a separator of one character: the pieces between the separators,
  empty pieces included; the empty string gives one empty piece.
\<close>

fun str_split :: "char \<Rightarrow> string \<Rightarrow> string list" where
  "str_split d [] = [[]]"
| "str_split d (c # cs) =
     (if c = d then [] # str_split d cs
      else (case str_split d cs of [] \<Rightarrow> [[c]] | w # ws \<Rightarrow> (c # w) # ws))"

text \<open>\<^verbatim>\<open>.filter(Boolean)\<close> on an array of strings drops the empty ones.\<close>

definition filterBoolean :: "string list \<Rightarrow> string list" where
  "filterBoolean xs = filter (\<lambda>x. x \<noteq> []) xs"

section \<open>Owner classification\<close>

datatype owner_type = Business | Residential

definition BIZ_LIKE_TOKENS :: "string list" where
  "BIZ_LIKE_TOKENS =
    ['' LLC'', ''INC'', '' CORP'', '' CORPORATION'', '' LTD'', '' LP'', '' L.P'', '' LLP'',
     '' PLLC'', '' CO '', '' COMPANY'', '' HOLDINGS'', '' HLDGS'', '' PARTNERS'',
     '' PARTNERSHIP'', '' TRUST'', '' TR'', '' INVESTMENTS'', '' PROPERTIES'', '' MGMT'',
     '' MANAGEMENT'', '' ENTERPRISE'', '' FOUNDATION'']"

text \<open>
  The argument is \<open>None\<close> for a \<^verbatim>\<open>null\<close> or \<^verbatim>\<open>undefined\<close> name (the export loop passes
  the raw attribute of a record); \<^verbatim>\<open>!name\<close> also holds for the empty string.
\<close>

definition classifyOwner :: "string option \<Rightarrow> owner_type" where
  "classifyOwner name =
    (case name of
       None \<Rightarrow> Residential
     | Some n \<Rightarrow>
         if n = [] then Residential
         else let u = toUpperCase n
              in if list_ex (\<lambda>t. str_includes u t) BIZ_LIKE_TOKENS then Business else Residential)"

section \<open>Person-name detection\<close>

definition negative :: "string list" where
  "negative =
    [''UNKNOWN'', ''UNKNOWN OWNER'', ''SEE DEED'', ''VACANT'', ''MULTIPLE'', ''DECEASED'',
     ''C/O'', ''%C/O%'', ''ATTN'', ''PO BOX'', ''P O BOX'', ''TRUSTEE'', ''ESTATE'', ''BANK'',
     ''ASSOCIATION'', ''HOA'', ''REMAINDER'', ''REMAINDERMAN'', ''UNIT#'', ''LOT#'']"

text \<open>The class \<^verbatim>\<open>[.,()\-\/]\<close>.\<close>

definition isPunct :: "char \<Rightarrow> bool" where
  "isPunct c = (c \<in> set ''.,()-/'')"

text \<open>
  \<^verbatim>\<open>/^(LOT|BLK|UNIT|STE|APT|#)$/i\<close> accepts a token that equals one of the alternatives
  up to the case of its letters.
\<close>

definition addressWords :: "string list" where
  "addressWords = [''LOT'', ''BLK'', ''UNIT'', ''STE'', ''APT'', ''#'']"

definition isAddressWord :: "string \<Rightarrow> bool" where
  "isAddressWord p = (toUpperCase p \<in> set addressWords)"

definition isLikelyPersonName :: "string option \<Rightarrow> bool" where
  "isLikelyPersonName raw =
    (case raw of
       None \<Rightarrow> False
     | Some r \<Rightarrow>
         if r = [] then False
         else let s = trim r in
         if s = [] then False
         else let u = toUpperCase s in
         if list_ex (\<lambda>n. str_includes u n) negative then False
         else if list_ex (\<lambda>t. str_includes u (trim t)) BIZ_LIKE_TOKENS then False
         else let cleaned = trim (replaceRuns isSpace '' '' (replaceRuns isPunct '' '' s));
                  parts = filterBoolean (str_split (CHR '' '') cleaned) in
         if length parts < 2 then False
         else if list_ex (\<lambda>p. list_ex isDigit p \<or> isAddressWord p) parts then False
         else let shortTokens = filter (\<lambda>p. length p \<le> 2) parts in
         if length shortTokens \<ge> length parts - 1 then False
         else True)"

section \<open>Splitting an owner string into person names\<close>

record PersonName =
  first :: string
  middle :: "string option"
  last' :: string
  full :: string

text \<open>\<^verbatim>\<open>Array.prototype.join\<close>.\<close>

fun join :: "string \<Rightarrow> string list \<Rightarrow> string" where
  "join sep [] = []"
| "join sep [x] = x"
| "join sep (x # y # ys) = x @ sep @ join sep (y # ys)"

text \<open>\<^verbatim>\<open>s.split(/\s+/)\<close>, for the class \<open>P\<close>: the pieces between the maximal runs of \<open>P\<close>.\<close>

function splitRuns :: "(char \<Rightarrow> bool) \<Rightarrow> string \<Rightarrow> string list" where
  "splitRuns P [] = [[]]"
| "splitRuns P (c # cs) =
     (if P c then [] # splitRuns P (dropWhile P cs)
      else (case splitRuns P cs of [] \<Rightarrow> [[c]] | w # ws \<Rightarrow> (c # w) # ws))"
  by pat_completeness auto
termination
  by (relation "measure (\<lambda>(P, s). length s)")
     (auto simp: less_Suc_eq_le length_dropWhile_le)

definition startsWithSpace :: "string \<Rightarrow> bool" where
  "startsWithSpace s = (case s of [] \<Rightarrow> False | c # _ \<Rightarrow> isSpace c)"

text \<open>
  One match of the co-owner separator \<^verbatim>\<open>/\s+&\s+|\s+AND\s+|\s*\/\s*|;|\|/i\<close> at the head
  of a string; the result is the text after the match. The alternatives are tried in the
  order of the pattern and each quantifier is greedy. A shorter run of white space never
  helps, since the character that must follow the run is not white space.
\<close>

definition matchSeparator :: "string \<Rightarrow> string option" where
  "matchSeparator s =
    (let r = dropWhile isSpace s in
     if r \<noteq> s \<and> prefix ''&'' r \<and> startsWithSpace (drop 1 r)
       then Some (dropWhile isSpace (drop 1 r))
     else if r \<noteq> s \<and> toUpperCase (take 3 r) = ''AND'' \<and> startsWithSpace (drop 3 r)
       then Some (dropWhile isSpace (drop 3 r))
     else if prefix ''/'' r then Some (dropWhile isSpace (drop 1 r))
     else if prefix '';'' s then Some (drop 1 s)
     else if prefix ''|'' s then Some (drop 1 s)
     else None)"

lemma matchSeparator_shorter:
  assumes "matchSeparator s = Some rest"
  shows "length rest < length s"
proof -
  let ?r = "dropWhile isSpace s"
  have r: "length ?r \<le> length s" by (rule length_dropWhile_le)
  have d: "\<And>n. length (dropWhile isSpace (drop n ?r)) \<le> length ?r - n"
    by (metis length_dropWhile_le length_drop)
  have three: "toUpperCase (take 3 ?r) = ''AND'' \<Longrightarrow> 3 \<le> length ?r"
  proof -
    assume "toUpperCase (take 3 ?r) = ''AND''"
    then have "length (take 3 ?r) = 3"
      by (metis length_map toUpperCase_def length_Cons list.size(3) numeral_3_eq_3)
    then show "3 \<le> length ?r" by simp
  qed
  have one: "\<And>x. prefix [x] ?r \<Longrightarrow> 1 \<le> length ?r"
    by (auto simp: prefix_def)
  from assms show ?thesis
    unfolding matchSeparator_def Let_def
    using r d [of 1] d [of 3] three one
    by (auto split: if_splits simp: prefix_def)
qed

text \<open>
  \<^verbatim>\<open>s.replace(/\s+&\s+|\s+AND\s+|\s*\/\s*|;|\|/gi, "|")\<close>: the matches are found from
  left to right, each search starting where the previous match ended.
\<close>

function replaceSeparators :: "string \<Rightarrow> string" where
  "replaceSeparators [] = []"
| "replaceSeparators (c # cs) =
     (case matchSeparator (c # cs) of
        Some rest \<Rightarrow> CHR ''|'' # replaceSeparators rest
      | None \<Rightarrow> c # replaceSeparators cs)"
  by pat_completeness auto
termination
  by (relation "measure length") (auto dest: matchSeparator_shorter)

text \<open>The candidate segments: split at the separators, trimmed, the empty ones dropped.\<close>

definition segments :: "string \<Rightarrow> string list" where
  "segments s = filterBoolean (map trim (str_split (CHR ''|'') (replaceSeparators s)))"

text \<open>A segment \<open>LAST, FIRST [MIDDLE]\<close> is rewritten to \<open>FIRST MIDDLE LAST\<close>.\<close>

definition reorderComma :: "string \<Rightarrow> string" where
  "reorderComma part =
    (if CHR '','' \<in> set part then
       (let pieces = filterBoolean (map trim (str_split (CHR '','') part)) in
        if length pieces \<ge> 2 then join '' '' (tl pieces) @ '' '' @ hd pieces else part)
     else part)"

text \<open>
  \<^verbatim>\<open>part.replace(/^\(+|\)+$/g, "")\<close>: the run of opening parentheses at the start and the
  run of closing parentheses at the end are removed.
\<close>

definition stripParens :: "string \<Rightarrow> string" where
  "stripParens s =
     rev (dropWhile (\<lambda>c. c = CHR '')'') (rev (dropWhile (\<lambda>c. c = CHR ''('') s)))"

definition candidate :: "string \<Rightarrow> string" where
  "candidate part = trim (stripParens (reorderComma part))"

text \<open>
  \<^verbatim>\<open>/^(MR|MRS|MS|DR|MISS)\.?/i\<close>: the first alternative, in the order of the pattern, that
  the string begins with, and a full stop after it when there is one.
\<close>

definition titles :: "string list" where
  "titles = [''MR'', ''MRS'', ''MS'', ''DR'', ''MISS'']"

definition stripTitle :: "string \<Rightarrow> string" where
  "stripTitle s =
    (case find (\<lambda>t. toUpperCase (take (length t) s) = t) titles of
       None \<Rightarrow> s
     | Some t \<Rightarrow> (let r = drop (length t) s in if prefix ''.'' r then drop 1 r else r))"

text \<open>
  \<^verbatim>\<open>/\b(JR|SR|II|III|IV|V|MD|ESQ|PHD)\.?$/i\<close>: the match runs to the end of the string, so
  it starts at the leftmost position that stands at a word boundary and from which the
  rest of the string is one of the alternatives, with or without a full stop. The
  alternatives begin with a letter, so the boundary is there when the character before is
  not a word character.
\<close>

definition suffixes :: "string list" where
  "suffixes = [''JR'', ''SR'', ''II'', ''III'', ''IV'', ''V'', ''MD'', ''ESQ'', ''PHD'']"

definition isSuffixTail :: "string \<Rightarrow> bool" where
  "isSuffixTail r =
     list_ex (\<lambda>t. toUpperCase r = t \<or> toUpperCase r = t @ ''.'') suffixes"

fun stripSuffixFrom :: "bool \<Rightarrow> string \<Rightarrow> string" where
  "stripSuffixFrom prevWord [] = []"
| "stripSuffixFrom prevWord (c # cs) =
     (if \<not> prevWord \<and> isSuffixTail (c # cs) then []
      else c # stripSuffixFrom (isWord c) cs)"

definition stripSuffix :: "string \<Rightarrow> string" where
  "stripSuffix s = stripSuffixFrom False s"

text \<open>\<^verbatim>\<open>/^(DE|DA|DEL|LA|VAN|VON|MC|MAC|O')$/i\<close>.\<close>

definition particles :: "string list" where
  "particles = [''DE'', ''DA'', ''DEL'', ''LA'', ''VAN'', ''VON'', ''MC'', ''MAC'',
                [CHR ''O'', CHR 0x27]]"

definition isParticle :: "string \<Rightarrow> bool" where
  "isParticle t = (toUpperCase t \<in> set particles)"

text \<open>
  First, middle and last name from the tokens of a segment; \<open>None\<close> when there is no
  token (the loop continues with the next segment).
\<close>

fun nameParts :: "string list \<Rightarrow> (string \<times> string \<times> string) option" where
  "nameParts [] = None"
| "nameParts [t] = Some (t, [], [])"
| "nameParts [t, u] = Some (t, [], u)"
| "nameParts tokens =
     (let n = length tokens; secondLast = tokens ! (n - 2) in
      if isParticle secondLast
      then Some (hd tokens, join '' '' (take (n - 3) (drop 1 tokens)), join '' '' (drop (n - 2) tokens))
      else Some (hd tokens, join '' '' (take (n - 2) (drop 1 tokens)), tokens ! (n - 1)))"

text \<open>The body of the loop over the segments: the record pushed, or \<open>None\<close> on \<^verbatim>\<open>continue\<close>.\<close>

definition personOf :: "string \<Rightarrow> PersonName option" where
  "personOf part0 =
    (let part = candidate part0 in
     if \<not> isLikelyPersonName (Some part) then None
     else let part1 = trim (stripSuffix (stripTitle part));
              tokens = filterBoolean (splitRuns isSpace part1) in
       (case nameParts tokens of
          None \<Rightarrow> None
        | Some (f, m, l) \<Rightarrow>
            Some \<lparr>first = f, middle = (if m = [] then None else Some m), last' = l,
                  full = part1\<rparr>))"

definition splitPersonNames :: "string option \<Rightarrow> PersonName list" where
  "splitPersonNames raw =
    (case raw of
       None \<Rightarrow> []
     | Some r \<Rightarrow>
         if r = [] then []
         else let s = trim r in
         if s = [] then []
         else List.map_filter personOf (segments s))"

section \<open>Owner key\<close>

text \<open>The characters that \<^verbatim>\<open>/[^a-z0-9\s']/gi\<close> leaves in place.\<close>

definition isKeyChar :: "char \<Rightarrow> bool" where
  "isKeyChar c = (isAlpha c \<or> isDigit c \<or> isSpace c \<or> c = CHR 0x27)"

definition normalizeOwnerKey :: "string option \<Rightarrow> string" where
  "normalizeOwnerKey raw =
    (case raw of
       None \<Rightarrow> []
     | Some r \<Rightarrow>
         if r = [] then []
         else (case splitPersonNames raw of
                 [] \<Rightarrow> []
               | p # _ \<Rightarrow>
                   let key = toLowerCase (trim (first p @ '' '' @ last' p))
                   in replaceRuns isSpace '' '' (filter isKeyChar key)))"

section \<open>Approximate median of a histogram\<close>

text \<open>
  JavaScript numbers are modelled as real numbers. A count is \<open>None\<close> when the field is
  \<^verbatim>\<open>undefined\<close> or not a number, which \<^verbatim>\<open>b.count || 0\<close> reads as zero, as it does a
  count of zero. A bound of a range is \<open>None\<close> when the field is absent.
\<close>

record bin =
  label :: string
  count :: "real option"

record range =
  lo :: "real option"
  hi :: "real option"

definition orZero :: "real option \<Rightarrow> real" where
  "orZero c = (case c of None \<Rightarrow> 0 | Some x \<Rightarrow> x)"

text \<open>\<^verbatim>\<open>ranges[i] || {}\<close>: an index past the end of the array gives the empty object.\<close>

definition rangeAt :: "range list \<Rightarrow> nat \<Rightarrow> range" where
  "rangeAt ranges i = (if i < length ranges then ranges ! i else \<lparr>lo = None, hi = None\<rparr>)"

text \<open>The value returned for the bucket the scan stops at.\<close>

definition bucketValue :: "range \<Rightarrow> real" where
  "bucketValue r =
    (let l = (case lo r of None \<Rightarrow> 0 | Some x \<Rightarrow> x);
         h = (case hi r of None \<Rightarrow> l | Some y \<Rightarrow> y)
     in if h \<le> l then l else (l + h) / 2)"

text \<open>
  The loop over the buckets, from index \<open>i\<close> with the running sum \<open>cum\<close>; falling off the
  end of the array returns zero.
\<close>

fun scanBins :: "real \<Rightarrow> range list \<Rightarrow> real \<Rightarrow> nat \<Rightarrow> bin list \<Rightarrow> real" where
  "scanBins half ranges cum i [] = 0"
| "scanBins half ranges cum i (b # bs) =
     (let cum' = cum + orZero (count b)
      in if cum' \<ge> half then bucketValue (rangeAt ranges i)
         else scanBins half ranges cum' (Suc i) bs)"

definition approxMedianFromBins :: "bin list \<Rightarrow> range list \<Rightarrow> real" where
  "approxMedianFromBins bins ranges =
    (let total = foldl (\<lambda>s b. s + orZero (count b)) 0 bins
     in if total = 0 then 0
        else scanBins (total / 2) ranges 0 0 bins)"

text \<open>
  The quantities the description of the function speaks of: the cumulative count up to
  and including bucket \<open>i\<close>, and the total count.
\<close>

definition cumCount :: "bin list \<Rightarrow> nat \<Rightarrow> real" where
  "cumCount bins i = sum_list (map (\<lambda>b. orZero (count b)) (take (Suc i) bins))"

definition totalCount :: "bin list \<Rightarrow> real" where
  "totalCount bins = sum_list (map (\<lambda>b. orZero (count b)) bins)"

section \<open>Fetching with retries\<close>

text \<open>
  A thrown value: an \<^verbatim>\<open>Error\<close> or a \<^verbatim>\<open>DOMException\<close>, with its name and its message.
\<close>

record js_error =
  name :: string
  message :: string

definition Error :: "string \<Rightarrow> js_error" where
  "Error msg = \<lparr>name = ''Error'', message = msg\<rparr>"

text \<open>\<^verbatim>\<open>new DOMException("Aborted", "AbortError")\<close>.\<close>

definition AbortError :: js_error where
  "AbortError = \<lparr>name = ''AbortError'', message = ''Aborted''\<rparr>"

text \<open>
  The decoded body of a response. Its \<^verbatim>\<open>error\<close> member, when present, is an object with
  or without a \<^verbatim>\<open>message\<close>, or a string; other values of the member are not modelled.
\<close>

datatype json_error = ErrorObject "string option" | ErrorString string

record 'j json =
  error :: "json_error option"
  payload :: 'j

text \<open>
  What one call of \<^verbatim>\<open>fetch\<close> and \<^verbatim>\<open>res.json()\<close> gives: the request is rejected
  (network failure, abort), or a response arrives with its status and a body that decodes
  or fails to decode.
\<close>

datatype 'j fetch_outcome = Rejected js_error | Responded nat "js_error + 'j json"

text \<open>The decimal digits of a number, as \<^verbatim>\<open>`HTTP ${res.status}`\<close> prints the status.\<close>

definition digitChar :: "nat \<Rightarrow> char" where
  "digitChar d = digits ! d"

function showNat :: "nat \<Rightarrow> string" where
  "showNat n = (if n < 10 then [digitChar n] else showNat (n div 10) @ [digitChar (n mod 10)])"
  by pat_completeness auto
termination
  by (relation "measure id") auto

declare showNat.simps [simp del]

text \<open>\<^verbatim>\<open>res.ok\<close>: the status is in the range 200 to 299.\<close>

definition ok :: "nat \<Rightarrow> bool" where
  "ok st = (200 \<le> st \<and> st \<le> 299)"

text \<open>
  The message of the error thrown for a body with a truthy \<^verbatim>\<open>error\<close> member:
  \<^verbatim>\<open>json.error?.message || json.error || "ArcGIS error"\<close>, converted to a string.
\<close>

definition embeddedMessage :: "json_error \<Rightarrow> string" where
  "embeddedMessage e =
    (case e of
       ErrorObject (Some m) \<Rightarrow> if m \<noteq> [] then m else ''[object Object]''
     | ErrorObject None \<Rightarrow> ''[object Object]''
     | ErrorString str \<Rightarrow> str)"

definition truthy :: "json_error option \<Rightarrow> bool" where
  "truthy e = (case e of None \<Rightarrow> False | Some (ErrorString str) \<Rightarrow> str \<noteq> [] | Some _ \<Rightarrow> True)"

definition fetchJSON :: "'j fetch_outcome \<Rightarrow> js_error + 'j json" where
  "fetchJSON out =
    (case out of
       Rejected e \<Rightarrow> Inl e
     | Responded st body \<Rightarrow>
         if \<not> ok st then Inl (Error (''HTTP '' @ showNat st))
         else (case body of
                 Inl e \<Rightarrow> Inl e
               | Inr j \<Rightarrow>
                   if truthy (error j) then Inl (Error (embeddedMessage (the (error j))))
                   else Inr j))"

text \<open>
  \<^verbatim>\<open>String(e?.message || e)\<close>: the message, or for an empty message the string form of the
  error, which is its name.
\<close>

definition errorText :: "js_error \<Rightarrow> string" where
  "errorText e = (if message e \<noteq> [] then message e else name e)"

text \<open>\<^verbatim>\<open>/HTTP (429|5\d\d)/.test(t)\<close>: the pattern matches somewhere in \<open>t\<close>.\<close>

definition retriableAt :: "string \<Rightarrow> bool" where
  "retriableAt t =
    (prefix ''HTTP 429'' t \<or>
     (prefix ''HTTP 5'' t \<and>
      (case drop 6 t of d1 # d2 # _ \<Rightarrow> isDigit d1 \<and> isDigit d2 | _ \<Rightarrow> False)))"

fun retriable :: "string \<Rightarrow> bool" where
  "retriable [] = False"
| "retriable (c # cs) = (retriableAt (c # cs) \<or> retriable cs)"

text \<open>
  The abort signal. A run is the sequence request 0, wait 0, request 1, wait 1, ...; the
  signal fires by the time request \<open>n\<close> has settled (\<open>ByRequest n\<close>, which covers a signal
  aborted before the call) or during the wait after request \<open>n\<close> (\<open>InWait n\<close>). \<open>None\<close> is
  a signal that never fires, or no signal at all: \<^verbatim>\<open>signal?.aborted\<close> is then not true
  and no listener runs.
\<close>

datatype abort_point = ByRequest nat | InWait nat

definition aborted :: "abort_point option \<Rightarrow> nat \<Rightarrow> bool" where
  "aborted sig n =
    (case sig of None \<Rightarrow> False | Some (ByRequest k) \<Rightarrow> k \<le> n | Some (InWait k) \<Rightarrow> k < n)"

text \<open>
  The loop of \<open>fetchJSONWithRetry\<close>. \<open>fetch n\<close> is the outcome of the request of iteration
  \<open>n\<close>. The result is the value returned or thrown, with the number of requests made. The
  length of the backoff delay does not change the result and is left out; the wait ends
  with \<open>AbortError\<close> when the signal fires during it.
\<close>

function retryLoop ::
  "(nat \<Rightarrow> 'j fetch_outcome) \<Rightarrow> abort_point option \<Rightarrow> nat \<Rightarrow> nat \<Rightarrow> (js_error + 'j json) \<times> nat"
where
  "retryLoop fetch sig retries attempt =
    (case fetchJSON (fetch attempt) of
       Inr j \<Rightarrow> (Inr j, attempt + 1)
     | Inl e \<Rightarrow>
         if \<not> retriable (errorText e) \<or> attempt \<ge> retries \<or> aborted sig attempt
           then (Inl e, attempt + 1)
         else if sig = Some (InWait attempt) then (Inl AbortError, attempt + 1)
         else retryLoop fetch sig retries (attempt + 1))"
  by pat_completeness auto
termination
  by (relation "measure (\<lambda>(fetch, sig, retries, attempt). retries - attempt)") auto

declare retryLoop.simps [simp del]

definition fetchJSONWithRetry ::
  "(nat \<Rightarrow> 'j fetch_outcome) \<Rightarrow> abort_point option \<Rightarrow> nat \<Rightarrow> (js_error + 'j json) \<times> nat"
where
  "fetchJSONWithRetry fetch sig retries = retryLoop fetch sig retries 0"

section \<open>Export orchestrator\<close>

datatype export_mode = Single | PerZip

text \<open>The owner scope \<^verbatim>\<open>"both" | "business" | "residential"\<close>.\<close>

datatype owner_scope = Both | Only owner_type

record ZipRow =
  zip' :: string
  count' :: nat

text \<open>
  The attributes of a feature the export reads, and the rest of them; a row is a feature
  with the two computed columns.
\<close>

record 'a feature =
  py_owner_name :: "string option"
  situs_zip :: "string option"
  attributes :: 'a

record 'a row =
  feat :: "'a feature"
  zip5' :: "string option"
  owner_type' :: owner_type

definition zip5 :: "string option \<Rightarrow> string option" where
  "zip5 v =
    (case v of
       None \<Rightarrow> None
     | Some s \<Rightarrow> let only = filter isDigit s
                in if length only < 5 then None else Some (take 5 only))"

record config =
  exportZipList :: "ZipRow list"
  exportMode :: export_mode
  ownerScope :: owner_scope
  webhookUrl :: string
  webhookBatchSize :: nat
  throttleMs :: nat
  filePrefix :: string

text \<open>
  What the network does, seen from the job. The outcome of \<open>fetchJSONWithRetry\<close> for the
  \<open>n\<close>-th count query of the run; for each ZIP, the outcomes of its successive page
  queries (the data of a ZIP is finite: after the listed pages the service returns no
  features); the outcome of the \<open>n\<close>-th webhook POST; and what \<^verbatim>\<open>ctrl.signal.aborted\<close>
  says the \<open>n\<close>-th time the job looks at it.
\<close>

datatype post_outcome = PostRejected js_error | PostStatus nat

record 'a server =
  counts :: "nat \<Rightarrow> js_error + nat"
  pages :: "string \<Rightarrow> (js_error + 'a feature list) list"
  webhook :: "nat \<Rightarrow> post_outcome"
  cancelled :: "nat \<Rightarrow> bool"

text \<open>The requests, posts and downloads of a run, in the order they are made.\<close>

datatype 'a event =
    CountQuery string
  | PageQuery string nat
  | Post "'a row list" post_outcome
  | Download string "'a row list"

text \<open>The lines of the activity log, with the numbers they print.\<close>

datatype log_line =
    LogEstimated nat nat
  | LogPrecountFailed
  | LogStarting string
  | LogFinished string nat
  | LogComplete
  | LogCancelled
  | LogError string

text \<open>
  The state of the export: the state variables of the component, the two CSV builders
  (the rows appended; the projection of a row onto the selected columns is not modelled),
  and the history of the run with the counters that index the network.
\<close>

record 'a export_state =
  exportRunning :: bool
  exportError :: "string option"
  exportLog :: "log_line list"
  exportTotalRows :: nat
  exportTotalExpected :: "nat option"
  perZipProgress :: "string \<rightharpoonup> nat \<times> nat"
  singleBuilder :: "'a row list"
  perZipBuilder :: "'a row list"
  trace :: "'a event list"
  countQueries :: nat
  posts :: nat
  checks :: nat

text \<open>
  How a piece of the job ends: normally, by throwing, or never (\<open>Hang\<close>).
\<close>

datatype flow = Normal | Throw js_error | Hang

definition appendLog :: "log_line \<Rightarrow> 'a export_state \<Rightarrow> 'a export_state" where
  "appendLog l s = s\<lparr>exportLog := exportLog s @ [l]\<rparr>"

definition record_event :: "'a event \<Rightarrow> 'a export_state \<Rightarrow> 'a export_state" where
  "record_event ev s = s\<lparr>trace := trace s @ [ev]\<rparr>"

text \<open>Reading \<^verbatim>\<open>ctrl.signal.aborted\<close>.\<close>

definition signalAborted :: "'a server \<Rightarrow> 'a export_state \<Rightarrow> bool \<times> 'a export_state" where
  "signalAborted env s = (cancelled env (checks s), s\<lparr>checks := checks s + 1\<rparr>)"

text \<open>\<^verbatim>\<open>sleep(ms, signal)\<close> is rejected when the signal has fired by the end of the pause.\<close>

definition sleep :: "'a server \<Rightarrow> 'a export_state \<Rightarrow> flow \<times> 'a export_state" where
  "sleep env s =
    (case signalAborted env s of
       (True, s') \<Rightarrow> (Throw AbortError, s')
     | (False, s') \<Rightarrow> (Normal, s'))"

text \<open>A count query for a ZIP, through \<open>fetchJSONWithRetry\<close>.\<close>

definition countQuery ::
  "'a server \<Rightarrow> string \<Rightarrow> 'a export_state \<Rightarrow> (js_error + nat) \<times> 'a export_state" where
  "countQuery env z s =
    (counts env (countQueries s),
     record_event (CountQuery z) (s\<lparr>countQueries := countQueries s + 1\<rparr>))"

text \<open>The loop of the precount; the first failed query ends it.\<close>

fun precountLoop ::
  "'a server \<Rightarrow> ZipRow list \<Rightarrow> (string \<rightharpoonup> nat) \<Rightarrow> 'a export_state
     \<Rightarrow> (js_error + (string \<rightharpoonup> nat)) \<times> 'a export_state" where
  "precountLoop env [] totals s = (Inr totals, s)"
| "precountLoop env (z # zs) totals s =
    (case countQuery env (zip' z) s of
       (Inl e, s') \<Rightarrow> (Inl e, s')
     | (Inr c, s') \<Rightarrow> precountLoop env zs (totals(zip' z \<mapsto> c)) s')"

definition precount :: "'a server \<Rightarrow> config \<Rightarrow> 'a export_state \<Rightarrow> 'a export_state" where
  "precount env cfg s =
    (case precountLoop env (exportZipList cfg) Map.empty s of
       (Inr totals, s') \<Rightarrow>
         let expected = sum_list (map (\<lambda>k. case totals k of None \<Rightarrow> 0 | Some c \<Rightarrow> c)
                                       (remdups (map zip' (exportZipList cfg))))
         in appendLog (LogEstimated (length (exportZipList cfg)) expected)
              (s'\<lparr>exportTotalExpected := Some expected\<rparr>)
     | (Inl e, s') \<Rightarrow> appendLog LogPrecountFailed s')"

text \<open>
  \<open>chunkArray\<close>: the loop \<^verbatim>\<open>for (i = 0; i < arr.length; i += size)\<close> does not end for a
  size of zero and a non-empty array; the result is then \<open>None\<close>.
\<close>

function chunkArray :: "'b list \<Rightarrow> nat \<Rightarrow> 'b list list option" where
  "chunkArray arr sz =
    (if arr = [] then Some []
     else if sz = 0 then None
     else map_option (\<lambda>out. take sz arr # out) (chunkArray (drop sz arr) sz))"
  by pat_completeness auto
termination
  by (relation "measure (\<lambda>(arr, sz). length arr)") auto

declare chunkArray.simps [simp del]

text \<open>
  \<open>postNDJSON\<close>: one POST of a batch; a status outside the success range throws.
\<close>

definition postNDJSON ::
  "'a server \<Rightarrow> 'a row list \<Rightarrow> 'a export_state \<Rightarrow> flow \<times> 'a export_state" where
  "postNDJSON env objects s =
    (let res = webhook env (posts s);
         s' = record_event (Post objects res) (s\<lparr>posts := posts s + 1\<rparr>)
     in case res of
          PostRejected e \<Rightarrow> (Throw e, s')
        | PostStatus st \<Rightarrow>
            if \<not> ok st then (Throw (Error (''Webhook HTTP '' @ showNat st)), s')
            else (Normal, s'))"

text \<open>\<^verbatim>\<open>for (const b of batches) await postNDJSON(webhookUrl, b, ctrl.signal)\<close>.\<close>

fun postBatches ::
  "'a server \<Rightarrow> 'a row list list \<Rightarrow> 'a export_state \<Rightarrow> flow \<times> 'a export_state" where
  "postBatches env [] s = (Normal, s)"
| "postBatches env (b # bs) s =
    (case postNDJSON env b s of
       (Normal, s') \<Rightarrow> postBatches env bs s'
     | (f, s') \<Rightarrow> (f, s'))"

definition ownerPasses :: "owner_scope \<Rightarrow> string option \<Rightarrow> bool" where
  "ownerPasses type nm = (case type of Both \<Rightarrow> True | Only t \<Rightarrow> classifyOwner nm = t)"

definition mapFeature :: "'a feature \<Rightarrow> 'a row" where
  "mapFeature a =
     \<lparr>feat = a, zip5' = zip5 (situs_zip a), owner_type' = classifyOwner (py_owner_name a)\<rparr>"

text \<open>\<open>appendRows\<close> on the builder of the current mode.\<close>

definition appendRows :: "config \<Rightarrow> 'a row list \<Rightarrow> 'a export_state \<Rightarrow> 'a export_state" where
  "appendRows cfg rows s =
    (if exportMode cfg = Single then s\<lparr>singleBuilder := singleBuilder s @ rows\<rparr>
     else s\<lparr>perZipBuilder := perZipBuilder s @ rows\<rparr>)"

text \<open>
  The body of the page loop for a page with features: \<open>processed\<close> is the number of
  features of the ZIP handled before this page (the offset of the page).
\<close>

definition processPage ::
  "'a server \<Rightarrow> config \<Rightarrow> string \<Rightarrow> nat \<Rightarrow> nat \<Rightarrow> 'a feature list \<Rightarrow> 'a export_state
     \<Rightarrow> flow \<times> 'a export_state" where
  "processPage env cfg z zipTotal processed feats s =
    (let mapped0 = map mapFeature feats;
         mapped = (if ownerScope cfg \<noteq> Both
                   then filter (\<lambda>r. ownerPasses (ownerScope cfg) (py_owner_name (feat r))) mapped0
                   else mapped0);
         s1 = appendRows cfg mapped s;
         posted = (if webhookUrl cfg \<noteq> []
                   then (case chunkArray mapped (webhookBatchSize cfg) of
                           None \<Rightarrow> (Hang, s1)
                         | Some batches \<Rightarrow> postBatches env batches s1)
                   else (Normal, s1))
     in case posted of
          (Normal, s2) \<Rightarrow>
            let processedForZip = processed + length feats;
                s3 = s2\<lparr>perZipProgress := (perZipProgress s2)(z \<mapsto>
                          (min processedForZip (if zipTotal = 0 then processedForZip else zipTotal),
                           zipTotal)),
                        exportTotalRows := exportTotalRows s2 + length feats\<rparr>
            in if throttleMs cfg > 0 then sleep env s3 else (Normal, s3)
        | (f, s2) \<Rightarrow> (f, s2))"

text \<open>
  The page loop of one ZIP, over the outcomes of its page queries. The offset of a query
  is the number of features handled so far, which is what the loop returns beside the flow.
\<close>

fun pageLoop ::
  "'a server \<Rightarrow> config \<Rightarrow> string \<Rightarrow> nat \<Rightarrow> nat \<Rightarrow> (js_error + 'a feature list) list
     \<Rightarrow> 'a export_state \<Rightarrow> flow \<times> nat \<times> 'a export_state" where
  "pageLoop env cfg z zipTotal offset [] s =
    (case signalAborted env s of
       (True, s1) \<Rightarrow> (Throw AbortError, offset, s1)
     | (False, s1) \<Rightarrow> (Normal, offset, record_event (PageQuery z offset) s1))"
| "pageLoop env cfg z zipTotal offset (p # ps) s =
    (case signalAborted env s of
       (True, s1) \<Rightarrow> (Throw AbortError, offset, s1)
     | (False, s1) \<Rightarrow>
         let s2 = record_event (PageQuery z offset) s1
         in (case p of
               Inl e \<Rightarrow> (Throw e, offset, s2)
             | Inr feats \<Rightarrow>
                 if feats = [] then (Normal, offset, s2)
                 else (case processPage env cfg z zipTotal offset feats s2 of
                         (Normal, s3) \<Rightarrow>
                           pageLoop env cfg z zipTotal (offset + length feats) ps s3
                       | (f, s3) \<Rightarrow> (f, offset, s3))))"

text \<open>The body of the loop over the ZIPs.\<close>

definition exportZip ::
  "'a server \<Rightarrow> config \<Rightarrow> ZipRow \<Rightarrow> 'a export_state \<Rightarrow> flow \<times> 'a export_state" where
  "exportZip env cfg z s =
    (case signalAborted env s of
       (True, s0) \<Rightarrow> (Throw AbortError, s0)
     | (False, s0) \<Rightarrow>
         let s1 = appendLog (LogStarting (zip' z)) s0;
             s2 = s1\<lparr>perZipProgress := (perZipProgress s1)(zip' z \<mapsto> (0, count' z)),
                     perZipBuilder := []\<rparr>
         in (case countQuery env (zip' z) s2 of
               (r, s3) \<Rightarrow>
                 let zipTotal = (case r of Inr c \<Rightarrow> c | Inl e \<Rightarrow> count' z);
                     s4 = s3\<lparr>perZipProgress := (perZipProgress s3)(zip' z \<mapsto> (0, zipTotal))\<rparr>
                 in (case pageLoop env cfg (zip' z) zipTotal 0 (pages env (zip' z)) s4 of
                       (Normal, processedForZip, s5) \<Rightarrow>
                         let s6 = (if exportMode cfg = PerZip
                                   then record_event
                                          (Download (filePrefix cfg @ ''_'' @ zip' z @ ''.csv'')
                                             (perZipBuilder s5)) s5
                                   else s5)
                         in (Normal, appendLog (LogFinished (zip' z) processedForZip) s6)
                     | (f, processedForZip, s5) \<Rightarrow> (f, s5))))"

fun zipLoop ::
  "'a server \<Rightarrow> config \<Rightarrow> ZipRow list \<Rightarrow> 'a export_state \<Rightarrow> flow \<times> 'a export_state" where
  "zipLoop env cfg [] s = (Normal, s)"
| "zipLoop env cfg (z # zs) s =
    (case exportZip env cfg z s of
       (Normal, s') \<Rightarrow> zipLoop env cfg zs s'
     | (f, s') \<Rightarrow> (f, s'))"

text \<open>
  The start of \<open>startExport\<close>, up to its first \<^verbatim>\<open>await\<close>: with no ZIP in scope it reports an
  error and returns (\<open>False\<close>); otherwise it resets the state, sets \<open>exportRunning\<close> and the
  job begins (\<open>True\<close>).
\<close>

definition startExport_begin :: "config \<Rightarrow> 'a export_state \<Rightarrow> bool \<times> 'a export_state" where
  "startExport_begin cfg s =
    (if exportZipList cfg = []
     then (False, s\<lparr>exportError :=
                       Some ''No ZIPs to export. Choose a scope or provide custom ZIPs.''\<rparr>)
     else (True, s\<lparr>exportError := None, exportRunning := True, exportLog := [],
                    exportTotalRows := 0, perZipProgress := Map.empty,
                    exportTotalExpected := None, singleBuilder := []\<rparr>))"

text \<open>The \<^verbatim>\<open>finally\<close> block.\<close>

definition startExport_finally :: "'a export_state \<Rightarrow> 'a export_state" where
  "startExport_finally s = s\<lparr>exportRunning := False\<rparr>"

definition suffixOf :: "owner_scope \<Rightarrow> string" where
  "suffixOf sc =
    (case sc of Both \<Rightarrow> ''all'' | Only Business \<Rightarrow> ''business'' | Only Residential \<Rightarrow> ''residential'')"

text \<open>
  The whole of \<open>startExport\<close>. The result says whether the call settles (\<open>Normal\<close>; every
  exception is caught) or never does (\<open>Hang\<close>), with the state it leaves.
\<close>

definition startExport ::
  "'a server \<Rightarrow> config \<Rightarrow> 'a export_state \<Rightarrow> flow \<times> 'a export_state" where
  "startExport env cfg s =
    (case startExport_begin cfg s of
       (False, s') \<Rightarrow> (Normal, s')
     | (True, s1) \<Rightarrow>
         let s2 = precount env cfg s1 in
         (case zipLoop env cfg (exportZipList cfg) s2 of
            (Normal, s3) \<Rightarrow>
              let s4 = (if exportMode cfg = Single
                        then record_event
                               (Download (filePrefix cfg @ ''_'' @ suffixOf (ownerScope cfg)
                                            @ ''_multi_zips.csv'') (singleBuilder s3)) s3
                        else s3)
              in (Normal, startExport_finally (appendLog LogComplete s4))
          | (Throw e, s3) \<Rightarrow>
              (Normal, startExport_finally
                 (if name e = ''AbortError'' then appendLog LogCancelled s3
                  else appendLog (LogError (errorText e))
                         (s3\<lparr>exportError := Some (errorText e)\<rparr>)))
          | (Hang, s3) \<Rightarrow> (Hang, s3)))"







text \<open>
  A webhook POST that was answered with a status outside the success range; a history
  without such a POST; a history that ends with the first such POST, with the error thrown
  for it.
\<close>

definition failedPost :: "'a event \<Rightarrow> bool" where
  "failedPost ev = (case ev of Post b (PostStatus st) \<Rightarrow> \<not> ok st | _ \<Rightarrow> False)"

definition clean :: "'a event list \<Rightarrow> bool" where
  "clean tr = list_all (\<lambda>ev. \<not> failedPost ev) tr"

definition hookFailed :: "'a event list \<Rightarrow> js_error \<Rightarrow> bool" where
  "hookFailed tr e =
    (\<exists>pre b st. tr = pre @ [Post b (PostStatus st)] \<and> clean pre \<and> \<not> ok st \<and>
       e = Error (''Webhook HTTP '' @ showNat st))"

definition sound :: "flow \<times> 'a export_state \<Rightarrow> bool" where
  "sound r = (clean (trace (snd r)) \<or> (\<exists>e. fst r = Throw e \<and> hookFailed (trace (snd r)) e))"

text \<open>
  What holds after each piece of the job that starts from a history without a failed POST:
  the history still has none, or the piece threw the error of the failed POST that ends it.
\<close>

definition sound3 :: "flow \<times> nat \<times> 'a export_state \<Rightarrow> bool" where
  "sound3 r = sound (fst r, snd (snd r))"

text \<open>An idle state, a service with one parcel per ZIP and a webhook that answers 500.\<close>

definition idle :: "unit export_state" where
  "idle = \<lparr>exportRunning = False, exportError = None, exportLog = [], exportTotalRows = 0,
     exportTotalExpected = None, perZipProgress = Map.empty, singleBuilder = [],
     perZipBuilder = [], trace = [], countQueries = 0, posts = 0, checks = 0\<rparr>"

definition demo_feature :: "unit feature" where
  "demo_feature = \<lparr>py_owner_name = Some ''John Smith'', situs_zip = Some ''78701-1234'',
     attributes = ()\<rparr>"

definition demo_server :: "unit server" where
  "demo_server = \<lparr>counts = (\<lambda>n. Inr 1), pages = (\<lambda>z. [Inr [demo_feature]]),
     webhook = (\<lambda>n. PostStatus 500), cancelled = (\<lambda>n. False)\<rparr>"

definition demo_config :: config where
  "demo_config = \<lparr>exportZipList = [\<lparr>zip' = ''78701'', count' = 1\<rparr>, \<lparr>zip' = ''78702'', count' = 1\<rparr>],
     exportMode = Single, ownerScope = Both, webhookUrl = ''https://hook.example'',
     webhookBatchSize = 500, throttleMs = 200, filePrefix = ''parcels''\<rparr>"

section \<open>Facts about strings\<close>

lemma str_includes_iff: "str_includes s t \<longleftrightarrow> (\<exists>p q. s = p @ t @ q)"
proof (induction s)
  case Nil
  then show ?case by auto
next
  case (Cons c cs)
  show ?case
  proof
    assume "str_includes (c # cs) t"
    then consider "prefix t (c # cs)" | "str_includes cs t" by auto
    then show "\<exists>p q. c # cs = p @ t @ q"
    proof cases
      case 1
      then obtain q where "c # cs = t @ q" by (auto simp: prefix_def)
      then have "c # cs = [] @ t @ q" by simp
      then show ?thesis by blast
    next
      case 2
      with Cons.IH obtain p q where "cs = p @ t @ q" by blast
      then have "c # cs = (c # p) @ t @ q" by simp
      then show ?thesis by blast
    qed
  next
    assume "\<exists>p q. c # cs = p @ t @ q"
    then obtain p q where pq: "c # cs = p @ t @ q" by blast
    show "str_includes (c # cs) t"
    proof (cases p)
      case Nil
      with pq have "prefix t (c # cs)" by (simp add: prefix_def)
      then show ?thesis by simp
    next
      case (Cons a p')
      with pq have "cs = p' @ t @ q" by simp
      with Cons.IH have "str_includes cs t" by blast
      then show ?thesis by simp
    qed
  qed
qed

lemma isAlpha_not_isSpace: "isAlpha c \<Longrightarrow> \<not> isSpace c"
  by (auto simp: isAlpha_def isLower_def isUpper_def isSpace_def lower_letters_def upper_letters_def)

lemma isAlpha_not_isPunct: "isAlpha c \<Longrightarrow> \<not> isPunct c"
  by (auto simp: isAlpha_def isLower_def isUpper_def isPunct_def lower_letters_def upper_letters_def)

lemma isAlpha_not_isDigit: "isAlpha c \<Longrightarrow> \<not> isDigit c"
  by (auto simp: isAlpha_def isLower_def isUpper_def isDigit_def digits_def lower_letters_def upper_letters_def)

lemma isAlpha_not_space: "isAlpha c \<Longrightarrow> c \<noteq> CHR '' ''"
  by (auto simp: isAlpha_def isLower_def isUpper_def lower_letters_def upper_letters_def)

lemma isSpace_space: "isSpace (CHR '' '')"
  by (simp add: isSpace_def)

lemma isPunct_space: "\<not> isPunct (CHR '' '')"
  by (simp add: isPunct_def)

lemma trim_id:
  assumes "s \<noteq> []" "\<not> isSpace (hd s)" "\<not> isSpace (last s)"
  shows "trim s = s"
proof -
  from assms(1,2) have "dropWhile isSpace s = s"
    by (cases s) auto
  moreover from assms(1,3) have "dropWhile isSpace (rev s) = rev s"
    by (cases "rev s") (auto simp: last_rev [symmetric] hd_rev)
  ultimately show ?thesis by (simp add: trim_def)
qed

lemma replaceRuns_none: "\<forall>c\<in>set s. \<not> P c \<Longrightarrow> replaceRuns P r s = s"
  by (induction s) auto

lemma replaceRuns_append: "\<forall>c\<in>set a. \<not> P c \<Longrightarrow> replaceRuns P r (a @ s) = a @ replaceRuns P r s"
  by (induction a) auto

lemma str_split_none: "d \<notin> set b \<Longrightarrow> str_split d b = [b]"
  by (induction b) auto

lemma str_split_append: "d \<notin> set a \<Longrightarrow> str_split d (a @ d # s) = a # str_split d s"
  by (induction a) auto

lemma trim_sub: "\<exists>p q. t = p @ trim t @ q"
proof -
  let ?d = "dropWhile isSpace t"
  have "t = takeWhile isSpace t @ ?d" by simp
  moreover have "?d = rev (dropWhile isSpace (rev ?d)) @ rev (takeWhile isSpace (rev ?d))"
    by (metis rev_append rev_rev_ident takeWhile_dropWhile_id)
  ultimately have "t = takeWhile isSpace t @ trim t @ rev (takeWhile isSpace (rev ?d))"
    by (simp add: trim_def)
  then show ?thesis by blast
qed

lemma str_includes_trim: "str_includes u t \<Longrightarrow> str_includes u (trim t)"
proof -
  assume "str_includes u t"
  then obtain p q where "u = p @ t @ q" by (auto simp: str_includes_iff)
  moreover obtain p' q' where "t = p' @ trim t @ q'" using trim_sub by blast
  ultimately have "u = (p @ p') @ trim t @ (q' @ q)" by (metis append.assoc)
  then show ?thesis unfolding str_includes_iff by blast
qed


lemma two_token_parts:
  assumes a: "list_all isAlpha a" "a \<noteq> []" and b: "list_all isAlpha b" "b \<noteq> []"
  shows "trim (a @ CHR '' '' # b) = a @ CHR '' '' # b"
    and "filterBoolean (str_split (CHR '' '')
           (trim (replaceRuns isSpace '' '' (replaceRuns isPunct '' '' (a @ CHR '' '' # b))))) = [a, b]"
proof -
  let ?s = "a @ CHR '' '' # b"
  from a have ha: "\<not> isSpace (hd ?s)"
    by (cases a) (auto simp: isAlpha_not_isSpace)
  from b have hb: "\<not> isSpace (last ?s)"
    by (cases b rule: rev_cases) (auto simp: isAlpha_not_isSpace)
  show t: "trim ?s = ?s" using ha hb by (intro trim_id) auto
  have "\<forall>c\<in>set ?s. \<not> isPunct c"
    using a b by (auto simp: list_all_iff isAlpha_not_isPunct isPunct_space)
  then have p: "replaceRuns isPunct '' '' ?s = ?s" by (rule replaceRuns_none)
  have nb: "\<forall>c\<in>set b. \<not> isSpace c" using b by (auto simp: list_all_iff isAlpha_not_isSpace)
  have na: "\<forall>c\<in>set a. \<not> isSpace c" using a by (auto simp: list_all_iff isAlpha_not_isSpace)
  have "dropWhile isSpace b = b" using b nb by (cases b) auto
  then have "replaceRuns isSpace '' '' (CHR '' '' # b) = CHR '' '' # b"
    using nb by (simp add: isSpace_space replaceRuns_none)
  then have w: "replaceRuns isSpace '' '' ?s = ?s"
    using replaceRuns_append [OF na, of "'' ''" "CHR '' '' # b"] by simp
  have "CHR '' '' \<notin> set a" "CHR '' '' \<notin> set b"
    using a b by (auto simp: list_all_iff dest: isAlpha_not_space)
  then have "str_split (CHR '' '') ?s = [a, b]"
    by (simp add: str_split_append str_split_none)
  then show "filterBoolean (str_split (CHR '' '') (trim (replaceRuns isSpace '' '' (replaceRuns isPunct '' '' ?s)))) = [a, b]"
    using a b by (simp add: p w t filterBoolean_def)
qed

lemma isLower_isAlpha: "isLower c \<Longrightarrow> isAlpha c"
  by (simp add: isAlpha_def)

lemma isAlpha_isWord: "isAlpha c \<Longrightarrow> isWord c"
  by (simp add: isWord_def)

lemma isLower_cases:
  assumes "isLower c" and "\<And>d. d \<in> set lower_letters \<Longrightarrow> P d"
  shows "P c"
  using assms by (simp add: isLower_def)

lemma isLower_lowerChar: "isLower c \<Longrightarrow> lowerChar c = c"
  by (erule isLower_cases)
     (simp only: lower_letters_def list.set insert_iff empty_iff, elim disjE FalseE;
      simp add: lowerChar_def lower_letters_def upper_letters_def)

lemma isLower_upperChar: "isLower c \<Longrightarrow> isUpper (upperChar c)"
  by (erule isLower_cases)
     (simp only: lower_letters_def list.set insert_iff empty_iff, elim disjE FalseE;
      simp add: upperChar_def isUpper_def lower_letters_def upper_letters_def)

lemma upperChar_space: "upperChar (CHR '' '') = CHR '' ''"
  by (simp add: lower_letters_def upper_letters_def upperChar_def)

lemma lowerChar_space: "lowerChar (CHR '' '') = CHR '' ''"
  by (simp add: lower_letters_def upper_letters_def lowerChar_def)

lemma isAlpha_not_sep:
  assumes "isAlpha c"
  shows "c \<noteq> CHR ''&''" "c \<noteq> CHR ''/''" "c \<noteq> CHR '';''" "c \<noteq> CHR ''|''"
    "c \<noteq> CHR '',''" "c \<noteq> CHR ''(''" "c \<noteq> CHR '')''" "c \<noteq> CHR ''.''"
  using assms
  by (auto simp: isAlpha_def isLower_def isUpper_def lower_letters_def upper_letters_def)

lemma matchSeparator_letter: "isAlpha c \<Longrightarrow> matchSeparator (c # cs) = None"
  using isAlpha_not_sep [of c]
  by (auto simp: matchSeparator_def isAlpha_not_isSpace)

lemma replaceSeparators_letters:
  "list_all isAlpha a \<Longrightarrow> replaceSeparators (a @ s) = a @ replaceSeparators s"
  by (induction a) (simp_all add: matchSeparator_letter)

lemma startsWithSpace_drop_letters:
  "list_all isAlpha b \<Longrightarrow> \<not> startsWithSpace (drop n b)"
proof -
  assume b: "list_all isAlpha b"
  have "list_all isAlpha (drop n b)"
    using b by (auto simp: list_all_iff dest: in_set_dropD)
  then show ?thesis
    by (cases "drop n b") (auto simp: startsWithSpace_def isAlpha_not_isSpace)
qed

lemma matchSeparator_space_letters:
  assumes "list_all isAlpha b" "b \<noteq> []"
  shows "matchSeparator (CHR '' '' # b) = None"
proof -
  from assms obtain c cs where b: "b = c # cs" and c: "isAlpha c" by (cases b) auto
  have r: "dropWhile isSpace (CHR '' '' # b) = b"
    using b c by (simp add: isSpace_space isAlpha_not_isSpace)
  show ?thesis
    unfolding matchSeparator_def r Let_def
    using startsWithSpace_drop_letters [OF assms(1), of 3] b c isAlpha_not_sep [of c]
    by (auto simp: isSpace_space)
qed

lemma replaceSeparators_two_tokens:
  assumes "list_all isAlpha a" "list_all isAlpha b" "b \<noteq> []"
  shows "replaceSeparators (a @ CHR '' '' # b) = a @ CHR '' '' # b"
proof -
  have "replaceSeparators (b @ []) = b @ replaceSeparators []"
    using assms(2) by (rule replaceSeparators_letters)
  then have "replaceSeparators b = b" by simp
  then have "replaceSeparators (CHR '' '' # b) = CHR '' '' # b"
    using matchSeparator_space_letters [OF assms(2,3)] by simp
  then show ?thesis
    using replaceSeparators_letters [OF assms(1)] by simp
qed


lemma splitRuns_none: "\<forall>c\<in>set b. \<not> P c \<Longrightarrow> splitRuns P b = [b]"
  by (induction b) auto

lemma splitRuns_append:
  "\<forall>c\<in>set a. \<not> P c \<Longrightarrow> P d \<Longrightarrow> splitRuns P (a @ d # s) = a # splitRuns P (dropWhile P s)"
  by (induction a) auto

lemma stripSuffixFrom_word:
  "list_all isWord w \<Longrightarrow> stripSuffixFrom True (w @ r) = w @ stripSuffixFrom True r"
  by (induction w) auto


lemma isSuffixTail_cases:
  "isSuffixTail r \<Longrightarrow> \<exists>t\<in>set suffixes. toUpperCase r = t \<or> toUpperCase r = t @ ''.''"
  by (simp add: isSuffixTail_def list_ex_iff)

lemma suffixes_no_space: "t \<in> set suffixes \<Longrightarrow> CHR '' '' \<notin> set t"
  by (auto simp: suffixes_def)

lemma isUpper_not_dot: "isUpper c \<Longrightarrow> c \<noteq> CHR ''.''"
  by (auto simp: isUpper_def upper_letters_def)

lemma not_isSuffixTail_space: "\<not> isSuffixTail (a @ CHR '' '' # b)"
proof
  assume "isSuffixTail (a @ CHR '' '' # b)"
  then obtain t where t: "t \<in> set suffixes"
    and "toUpperCase (a @ CHR '' '' # b) = t \<or> toUpperCase (a @ CHR '' '' # b) = t @ ''.''"
    using isSuffixTail_cases by blast
  moreover have "CHR '' '' \<in> set (toUpperCase (a @ CHR '' '' # b))"
    by (simp add: toUpperCase_def upperChar_space)
  ultimately have "CHR '' '' \<in> set t" by auto
  with suffixes_no_space [OF t] show False by simp
qed

lemma not_isSuffixTail_letters:
  assumes "list_all isLower b" and "toUpperCase b \<notin> set suffixes"
  shows "\<not> isSuffixTail b"
proof
  assume "isSuffixTail b"
  then obtain t where "t \<in> set suffixes"
    and "toUpperCase b = t \<or> toUpperCase b = t @ ''.''"
    using isSuffixTail_cases by blast
  with assms(2) have "toUpperCase b = t @ ''.''" by auto
  then have "CHR ''.'' \<in> set (toUpperCase b)" by simp
  then obtain c where "c \<in> set b" and "upperChar c = CHR ''.''"
    by (auto simp: toUpperCase_def)
  with assms(1) show False
    using isLower_upperChar [of c] isUpper_not_dot [of "upperChar c"]
    by (auto simp: list_all_iff)
qed

lemma stripSuffix_two_tokens:
  assumes a: "list_all isLower a" "a \<noteq> []" and b: "list_all isLower b" "b \<noteq> []"
    and s: "toUpperCase b \<notin> set suffixes"
  shows "stripSuffix (a @ CHR '' '' # b) = a @ CHR '' '' # b"
proof -
  from a obtain a0 a' where a': "a = a0 # a'" by (cases a) auto
  from b obtain b0 b' where b': "b = b0 # b'" by (cases b) auto
  have wa: "list_all isWord a" and wb: "list_all isWord b"
    using a b by (auto simp: list_all_iff isLower_isAlpha isAlpha_isWord)
  have sp: "\<not> isWord (CHR '' '')"
    by (simp add: isWord_def isAlpha_def isLower_def isUpper_def isDigit_def
        lower_letters_def upper_letters_def digits_def)
  have "stripSuffixFrom True (b' @ []) = b' @ stripSuffixFrom True []"
    using wb b' by (intro stripSuffixFrom_word) simp
  then have 1: "stripSuffixFrom False b = b"
    using not_isSuffixTail_letters [OF b(1) s] wb b' by simp
  have 2: "stripSuffixFrom True (CHR '' '' # b) = CHR '' '' # b"
    using 1 sp by simp
  have "stripSuffixFrom True (a' @ CHR '' '' # b) = a' @ stripSuffixFrom True (CHR '' '' # b)"
    using wa a' by (intro stripSuffixFrom_word) simp
  then have "stripSuffixFrom False (a0 # a' @ CHR '' '' # b) = a0 # a' @ CHR '' '' # b"
    using not_isSuffixTail_space [of "a0 # a'" b] wa a' 2 by simp
  then show ?thesis by (simp add: stripSuffix_def a')
qed

lemma stripTitle_none:
  assumes "\<not> list_ex (\<lambda>t. prefix t (toUpperCase k)) titles"
  shows "stripTitle k = k"
proof -
  have "\<And>t. toUpperCase (take (length t) k) = t \<Longrightarrow> prefix t (toUpperCase k)"
    by (metis take_map toUpperCase_def take_is_prefix)
  with assms have "find (\<lambda>t. toUpperCase (take (length t) k) = t) titles = None"
    by (auto simp: find_None_iff list_ex_iff)
  then show ?thesis by (simp add: stripTitle_def)
qed


lemma replaceRuns_space_two_tokens:
  assumes "list_all isAlpha a" and "list_all isAlpha b" "b \<noteq> []"
  shows "replaceRuns isSpace '' '' (a @ CHR '' '' # b) = a @ CHR '' '' # b"
proof -
  have nb: "\<forall>c\<in>set b. \<not> isSpace c" and na: "\<forall>c\<in>set a. \<not> isSpace c"
    using assms by (auto simp: list_all_iff isAlpha_not_isSpace)
  have "dropWhile isSpace b = b" using assms(3) nb by (cases b) auto
  then have "replaceRuns isSpace '' '' (CHR '' '' # b) = CHR '' '' # b"
    using nb by (simp add: isSpace_space replaceRuns_none)
  then show ?thesis
    using replaceRuns_append [OF na, of "'' ''" "CHR '' '' # b"] by simp
qed

lemma segments_two_tokens:
  assumes a: "list_all isAlpha a" "a \<noteq> []" and b: "list_all isAlpha b" "b \<noteq> []"
  shows "segments (a @ CHR '' '' # b) = [a @ CHR '' '' # b]"
proof -
  have "CHR ''|'' \<notin> set (a @ CHR '' '' # b)"
    using a b isAlpha_not_sep(4) by (auto simp: list_all_iff)
  then have "str_split (CHR ''|'') (a @ CHR '' '' # b) = [a @ CHR '' '' # b]"
    by (rule str_split_none)
  then show ?thesis
    using two_token_parts(1) [OF a b] a
    by (simp add: segments_def replaceSeparators_two_tokens [OF a(1) b] filterBoolean_def)
qed

lemma candidate_two_tokens:
  assumes a: "list_all isAlpha a" "a \<noteq> []" and b: "list_all isAlpha b" "b \<noteq> []"
  shows "candidate (a @ CHR '' '' # b) = a @ CHR '' '' # b"
proof -
  let ?k = "a @ CHR '' '' # b"
  have "CHR '','' \<notin> set ?k"
    using a b isAlpha_not_sep(5) by (auto simp: list_all_iff)
  then have c: "reorderComma ?k = ?k" by (simp add: reorderComma_def)
  from a obtain a0 a' where a': "a = a0 # a'" and a0: "isAlpha a0" by (cases a) auto
  from b obtain b' bl where b': "b = b' @ [bl]" and bl: "isAlpha bl"
    by (cases b rule: rev_cases) auto
  have "dropWhile (\<lambda>c. c = CHR ''('') ?k = ?k"
    using a' a0 isAlpha_not_sep(6) [of a0] by simp
  moreover have "dropWhile (\<lambda>c. c = CHR '')'') (rev ?k) = rev ?k"
    using b' bl isAlpha_not_sep(7) [of bl] by simp
  ultimately have "stripParens ?k = ?k" by (simp add: stripParens_def)
  then show ?thesis
    using two_token_parts(1) [OF a b] c by (simp add: candidate_def)
qed

lemma tokens_two_tokens:
  assumes a: "list_all isAlpha a" "a \<noteq> []" and b: "list_all isAlpha b" "b \<noteq> []"
  shows "filterBoolean (splitRuns isSpace (a @ CHR '' '' # b)) = [a, b]"
proof -
  have nb: "\<forall>c\<in>set b. \<not> isSpace c" and na: "\<forall>c\<in>set a. \<not> isSpace c"
    using a b by (auto simp: list_all_iff isAlpha_not_isSpace)
  have "dropWhile isSpace b = b" using b nb by (cases b) auto
  then have "splitRuns isSpace (a @ CHR '' '' # b) = [a, b]"
    using splitRuns_append [OF na isSpace_space, of b] splitRuns_none [OF nb] by simp
  then show ?thesis using a b by (simp add: filterBoolean_def)
qed

lemma key_two_tokens:
  assumes a: "list_all isLower a" and b: "list_all isLower b" "b \<noteq> []"
  shows "replaceRuns isSpace '' '' (filter isKeyChar (toLowerCase (a @ CHR '' '' # b)))
           = a @ CHR '' '' # b"
proof -
  let ?k = "a @ CHR '' '' # b"
  have "map lowerChar a = a" "map lowerChar b = b"
    using a b by (auto simp: list_all_iff isLower_lowerChar intro: map_idI)
  then have l: "toLowerCase ?k = ?k" by (simp add: toLowerCase_def lowerChar_space)
  have "\<forall>c\<in>set ?k. isKeyChar c"
    using a b by (auto simp: list_all_iff isKeyChar_def isLower_isAlpha isSpace_space)
  then have f: "filter isKeyChar ?k = ?k" by (simp only: filter_id_conv)
  have al: "list_all isAlpha a" "list_all isAlpha b"
    using a b by (auto simp: list_all_iff isLower_isAlpha)
  show ?thesis
    unfolding l f using replaceRuns_space_two_tokens [OF al b(2)] .
qed

lemma str_includes_Nil_left: "str_includes [] t \<Longrightarrow> t = []"
  by simp

lemma BIZ_LIKE_TOKENS_nonempty: "t \<in> set BIZ_LIKE_TOKENS \<Longrightarrow> t \<noteq> []"
  by (auto simp: BIZ_LIKE_TOKENS_def)

lemma classifyOwner_token:
  assumes "t \<in> set BIZ_LIKE_TOKENS" and "str_includes (toUpperCase nm) t"
  shows "classifyOwner (Some nm) = Business"
proof -
  have "nm \<noteq> []"
  proof
    assume "nm = []"
    with assms(2) have "t = []" by (simp add: toUpperCase_def)
    with BIZ_LIKE_TOKENS_nonempty [OF assms(1)] show False by simp
  qed
  moreover have "list_ex (\<lambda>t. str_includes (toUpperCase nm) t) BIZ_LIKE_TOKENS"
    using assms by (auto simp: list_ex_iff)
  ultimately show ?thesis by (simp add: classifyOwner_def)
qed

section \<open>Properties of the owner classification\<close>

text \<open>
  Claim C8, as amended. \<open>classifyOwner\<close> is a total function of its argument. An absent or
  empty name is classified residential. A name is classified business exactly when its
  upper-case form contains one of the entries below as the code writes them, spaces
  included: every token but \<open>INC\<close> must follow a space, and \<open>CO\<close> must also be followed by
  one.
\<close>

theorem classifyOwner_business:
  "classifyOwner None = Residential \<and> classifyOwner (Some []) = Residential \<and>
   (classifyOwner (Some nm) = Business \<longleftrightarrow>
      (\<exists>t \<in> set ['' LLC'', ''INC'', '' CORP'', '' CORPORATION'', '' LTD'', '' LP'', '' L.P'',
                   '' LLP'', '' PLLC'', '' CO '', '' COMPANY'', '' HOLDINGS'', '' HLDGS'',
                   '' PARTNERS'', '' PARTNERSHIP'', '' TRUST'', '' TR'', '' INVESTMENTS'',
                   '' PROPERTIES'', '' MGMT'', '' MANAGEMENT'', '' ENTERPRISE'',
                   '' FOUNDATION''].
         str_includes (toUpperCase nm) t))"
proof -
  have 1: "classifyOwner None = Residential" "classifyOwner (Some []) = Residential"
    by (simp_all add: classifyOwner_def)
  have "classifyOwner (Some nm) = Business \<longleftrightarrow>
      (\<exists>t \<in> set BIZ_LIKE_TOKENS. str_includes (toUpperCase nm) t)"
  proof
    assume b: "classifyOwner (Some nm) = Business"
    then have "nm \<noteq> []" by (auto simp: classifyOwner_def)
    with b have "list_ex (\<lambda>t. str_includes (toUpperCase nm) t) BIZ_LIKE_TOKENS"
      by (auto simp: classifyOwner_def Let_def split: if_splits)
    then show "\<exists>t \<in> set BIZ_LIKE_TOKENS. str_includes (toUpperCase nm) t"
      by (simp add: list_ex_iff)
  next
    assume "\<exists>t \<in> set BIZ_LIKE_TOKENS. str_includes (toUpperCase nm) t"
    then show "classifyOwner (Some nm) = Business"
      using classifyOwner_token by blast
  qed
  then show ?thesis
    using 1 unfolding BIZ_LIKE_TOKENS_def by blast
qed

theorem classifyOwner_business_witness:
  "str_includes (toUpperCase ''Smith Family Trust'') '' TRUST'' \<and>
   classifyOwner (Some ''Smith Family Trust'') = Business \<and>
   classifyOwner (Some ''John Smith'') = Residential"
proof -
  have b: "str_includes (toUpperCase ''Smith Family Trust'') '' TRUST''" by code_simp
  have r: "classifyOwner (Some ''John Smith'') = Residential" by code_simp
  from classifyOwner_business [of "''Smith Family Trust''"] b r
  show ?thesis by simp
qed

text \<open>
  The unamended claim speaks of the tokens without their spaces. A token at the start of
  the name, or after a comma, is not matched: these names contain \<open>HOLDINGS\<close> and \<open>LLC\<close> and
  are classified residential.
\<close>

theorem classifyOwner_business_counterexample:
  "str_includes (toUpperCase ''HOLDINGS OF TEXAS'') ''HOLDINGS'' \<and>
   classifyOwner (Some ''HOLDINGS OF TEXAS'') = Residential \<and>
   str_includes (toUpperCase ''Acme,LLC'') ''LLC'' \<and>
   classifyOwner (Some ''Acme,LLC'') = Residential"
  by code_simp

text \<open>
  Claim C10. Every entry of \<open>BIZ_LIKE_TOKENS\<close> except \<open>INC\<close> begins with a space, and the
  test is plain substring containment. So a name whose upper-case form contains the letters
  \<open>INC\<close> anywhere, also inside a longer word, is classified business.
\<close>

theorem classifyOwner_INC:
  "list_all (\<lambda>t. t = ''INC'' \<or> prefix '' '' t) BIZ_LIKE_TOKENS \<and>
   (str_includes (toUpperCase nm) ''INC'' \<longrightarrow> classifyOwner (Some nm) = Business)"
proof -
  have "''INC'' \<in> set BIZ_LIKE_TOKENS" by (simp add: BIZ_LIKE_TOKENS_def)
  then have "str_includes (toUpperCase nm) ''INC'' \<longrightarrow> classifyOwner (Some nm) = Business"
    by (simp add: classifyOwner_token)
  moreover have "list_all (\<lambda>t. t = ''INC'' \<or> prefix '' '' t) BIZ_LIKE_TOKENS"
    by (simp add: BIZ_LIKE_TOKENS_def)
  ultimately show ?thesis by simp
qed

theorem classifyOwner_INC_witness:
  "str_includes (toUpperCase ''Prince William'') ''INC'' \<and>
   classifyOwner (Some ''Prince William'') = Business"
proof -
  have a: "str_includes (toUpperCase ''Prince William'') ''INC''" by code_simp
  from classifyOwner_INC [of "''Prince William''"] a show ?thesis by blast
qed

section \<open>Properties of the person-name detection\<close>

text \<open>
  Claim C2, as amended. A string of exactly two alphabetic tokens separated by one space is
  accepted by \<open>isLikelyPersonName\<close> and classified residential when, besides containing no
  negative token and no (trimmed) business token, both tokens have at least three letters
  and neither is an address word (LOT, BLK, UNIT, STE, APT). The last two conditions are
  guards of the function that the unamended claim leaves out.
\<close>

theorem isLikelyPersonName_two_tokens:
  assumes "list_all isAlpha a" and "list_all isAlpha b"
    and "3 \<le> length a" and "3 \<le> length b"
    and "\<not> isAddressWord a" and "\<not> isAddressWord b"
    and "s = a @ '' '' @ b"
    and "\<not> list_ex (\<lambda>n. str_includes (toUpperCase s) n) negative"
    and "\<not> list_ex (\<lambda>t. str_includes (toUpperCase s) (trim t)) BIZ_LIKE_TOKENS"
  shows "isLikelyPersonName (Some s) \<and> classifyOwner (Some s) = Residential"
proof -
  from assms(3,4) have ne: "a \<noteq> []" "b \<noteq> []" by auto
  note tp = two_token_parts [OF assms(1) ne(1) assms(2) ne(2)]
  have dig: "\<not> list_ex isDigit a" "\<not> list_ex isDigit b"
    using assms(1,2) by (auto simp: list_all_iff list_ex_iff isAlpha_not_isDigit)
  have "isLikelyPersonName (Some s)"
    unfolding isLikelyPersonName_def using assms(3-9) dig
    by (simp add: tp Let_def)
  moreover have "\<not> list_ex (\<lambda>t. str_includes (toUpperCase s) t) BIZ_LIKE_TOKENS"
    using assms(9) by (auto simp: list_ex_iff dest: str_includes_trim)
  then have "classifyOwner (Some s) = Residential"
    using assms(7) by (simp add: classifyOwner_def)
  ultimately show ?thesis by simp
qed

theorem isLikelyPersonName_two_tokens_witness:
  "list_all isAlpha ''John'' \<and> list_all isAlpha ''Smith'' \<and>
   3 \<le> length ''John'' \<and> 3 \<le> length ''Smith'' \<and>
   \<not> isAddressWord ''John'' \<and> \<not> isAddressWord ''Smith'' \<and>
   \<not> list_ex (\<lambda>n. str_includes (toUpperCase ''John Smith'') n) negative \<and>
   \<not> list_ex (\<lambda>t. str_includes (toUpperCase ''John Smith'') (trim t)) BIZ_LIKE_TOKENS \<and>
   isLikelyPersonName (Some ''John Smith'') \<and> classifyOwner (Some ''John Smith'') = Residential"
proof -
  have h1: "list_all isAlpha ''John''" and h2: "list_all isAlpha ''Smith''" by code_simp+
  have h3: "3 \<le> length ''John''" and h4: "3 \<le> length ''Smith''" by simp_all
  have h5: "\<not> isAddressWord ''John''" and h6: "\<not> isAddressWord ''Smith''" by code_simp+
  have h7: "''John Smith'' = ''John'' @ '' '' @ ''Smith''" by simp
  have h8: "\<not> list_ex (\<lambda>n. str_includes (toUpperCase ''John Smith'') n) negative"
    by code_simp
  have h9: "\<not> list_ex (\<lambda>t. str_includes (toUpperCase ''John Smith'') (trim t)) BIZ_LIKE_TOKENS"
    by code_simp
  from isLikelyPersonName_two_tokens [OF h1 h2 h3 h4 h5 h6 h7 h8 h9] h1 h2 h3 h4 h5 h6 h8 h9
  show ?thesis by blast
qed

text \<open>
  The unamended claim fails: \<open>Apt Jones\<close> and \<open>Al Smith\<close> consist of two alphabetic tokens
  and contain no negative and no business token, yet both are rejected, the first for the
  address word and the second for the token of two letters.
\<close>

theorem isLikelyPersonName_two_tokens_counterexample:
  "list_all isAlpha ''Apt'' \<and> list_all isAlpha ''Jones'' \<and>
   \<not> list_ex (\<lambda>n. str_includes (toUpperCase ''Apt Jones'') n) negative \<and>
   \<not> list_ex (\<lambda>t. str_includes (toUpperCase ''Apt Jones'') (trim t)) BIZ_LIKE_TOKENS \<and>
   \<not> isLikelyPersonName (Some ''Apt Jones'') \<and>
   list_all isAlpha ''Al'' \<and> list_all isAlpha ''Smith'' \<and>
   \<not> list_ex (\<lambda>n. str_includes (toUpperCase ''Al Smith'') n) negative \<and>
   \<not> list_ex (\<lambda>t. str_includes (toUpperCase ''Al Smith'') (trim t)) BIZ_LIKE_TOKENS \<and>
   \<not> isLikelyPersonName (Some ''Al Smith'')"
  by code_simp

section \<open>Properties of the name splitter\<close>

lemma personOf_rejected: "\<not> isLikelyPersonName (Some (candidate p)) \<Longrightarrow> personOf p = None"
  by (simp add: personOf_def)

lemma map_filter_all_None: "\<forall>x\<in>set xs. f x = None \<Longrightarrow> List.map_filter f xs = []"
  by (induction xs) (auto simp: List.map_filter_simps)

text \<open>
  Claim C6. \<open>splitPersonNames\<close> returns the empty array for an absent input, for the empty
  string and for an input none of whose candidate segments is accepted by
  \<open>isLikelyPersonName\<close>, in particular for \<open>ACME LLC\<close>. On \<open>Smith, John & Doe, Jane\<close> it
  returns at least two entries, the first with first name \<open>John\<close> and the second with first
  name \<open>Jane\<close>.
\<close>

theorem splitPersonNames_conservative:
  "splitPersonNames None = [] \<and> splitPersonNames (Some []) = [] \<and>
   splitPersonNames (Some ''ACME LLC'') = [] \<and>
   (list_all (\<lambda>p. \<not> isLikelyPersonName (Some (candidate p))) (segments (trim s)) \<longrightarrow>
      splitPersonNames (Some s) = []) \<and>
   (let r = splitPersonNames (Some ''Smith, John & Doe, Jane'')
    in length r \<ge> 2 \<and> first (r ! 0) = ''John'' \<and> first (r ! 1) = ''Jane'')"
proof -
  have 1: "splitPersonNames None = []" "splitPersonNames (Some []) = []"
    by (simp_all add: splitPersonNames_def)
  have 2: "splitPersonNames (Some ''ACME LLC'') = []" by code_simp
  have 3: "list_all (\<lambda>p. \<not> isLikelyPersonName (Some (candidate p))) (segments (trim s)) \<longrightarrow>
      splitPersonNames (Some s) = []"
    by (auto simp: splitPersonNames_def Let_def list_all_iff personOf_rejected
        intro!: map_filter_all_None)
  have 4: "let r = splitPersonNames (Some ''Smith, John & Doe, Jane'')
    in length r \<ge> 2 \<and> first (r ! 0) = ''John'' \<and> first (r ! 1) = ''Jane''"
    by code_simp
  from 1 2 3 4 show ?thesis by blast
qed

theorem splitPersonNames_conservative_witness:
  "list_all (\<lambda>p. \<not> isLikelyPersonName (Some (candidate p)))
     (segments (trim ''ACME LLC & 12 Main St'')) \<and>
   splitPersonNames (Some ''ACME LLC & 12 Main St'') = []"
proof -
  have h: "list_all (\<lambda>p. \<not> isLikelyPersonName (Some (candidate p)))
     (segments (trim ''ACME LLC & 12 Main St''))" by code_simp
  from splitPersonNames_conservative [of "''ACME LLC & 12 Main St''"] h
  show ?thesis by blast
qed

section \<open>Properties of the owner key\<close>

text \<open>
  Claim C1, as amended. A key of the form \<open>first last\<close>, two tokens of lower-case letters
  separated by one space, is a fixed point of \<open>normalizeOwnerKey\<close> when
  \<open>isLikelyPersonName\<close> accepts it, it does not begin with a title (mr, ms, dr, miss) and
  its last token is not a suffix (jr, sr, ii, iii, iv, v, md, esq, phd). Applying
  \<open>normalizeOwnerKey\<close> to an output of this form returns the output.
\<close>

theorem normalizeOwnerKey_fixed_point:
  assumes "list_all isLower a" and "a \<noteq> []" and "list_all isLower b" and "b \<noteq> []"
    and "k = a @ '' '' @ b"
    and "isLikelyPersonName (Some k)"
    and "\<not> list_ex (\<lambda>t. prefix t (toUpperCase k)) titles"
    and "toUpperCase b \<notin> set suffixes"
  shows "normalizeOwnerKey (Some k) = k"
proof -
  have k: "k = a @ CHR '' '' # b" using assms(5) by simp
  have al: "list_all isAlpha a" "list_all isAlpha b"
    using assms(1,3) by (auto simp: list_all_iff isLower_isAlpha)
  note ne = assms(2,4)
  have t: "trim k = k" unfolding k by (rule two_token_parts(1) [OF al(1) ne(1) al(2) ne(2)])
  have seg: "segments k = [k]"
    unfolding k by (rule segments_two_tokens [OF al(1) ne(1) al(2) ne(2)])
  have cand: "candidate k = k"
    unfolding k by (rule candidate_two_tokens [OF al(1) ne(1) al(2) ne(2)])
  have title: "stripTitle k = k" using assms(7) by (rule stripTitle_none)
  have suffix: "stripSuffix k = k"
    unfolding k by (rule stripSuffix_two_tokens [OF assms(1) ne(1) assms(3) ne(2) assms(8)])
  have toks: "filterBoolean (splitRuns isSpace k) = [a, b]"
    unfolding k by (rule tokens_two_tokens [OF al(1) ne(1) al(2) ne(2)])
  have "personOf k = Some \<lparr>first = a, middle = None, last' = b, full = k\<rparr>"
    using assms(6) by (simp add: personOf_def cand title suffix t toks)
  moreover have kne: "k \<noteq> []" using k by simp
  ultimately have "splitPersonNames (Some k) = [\<lparr>first = a, middle = None, last' = b, full = k\<rparr>]"
    by (simp add: splitPersonNames_def t seg List.map_filter_simps)
  with kne have "normalizeOwnerKey (Some k) =
      replaceRuns isSpace '' '' (filter isKeyChar (toLowerCase (trim (a @ CHR '' '' # b))))"
    by (simp add: normalizeOwnerKey_def)
  also have "\<dots> = a @ CHR '' '' # b"
    using t key_two_tokens [OF assms(1,3) ne(2)] by (simp add: k)
  finally show ?thesis by (simp add: k)
qed


theorem normalizeOwnerKey_fixed_point_witness:
  "normalizeOwnerKey (Some ''Smith, John'') = ''john smith'' \<and>
   list_all isLower ''john'' \<and> list_all isLower ''smith'' \<and>
   isLikelyPersonName (Some ''john smith'') \<and>
   \<not> list_ex (\<lambda>t. prefix t (toUpperCase ''john smith'')) titles \<and>
   toUpperCase ''smith'' \<notin> set suffixes \<and>
   normalizeOwnerKey (Some (normalizeOwnerKey (Some ''Smith, John''))) =
     normalizeOwnerKey (Some ''Smith, John'')"
proof -
  have r: "normalizeOwnerKey (Some ''Smith, John'') = ''john smith''" by code_simp
  have h1: "list_all isLower ''john''" and h3: "list_all isLower ''smith''" by code_simp+
  have h2: "''john'' \<noteq> []" and h4: "''smith'' \<noteq> []" by simp_all
  have h5: "''john smith'' = ''john'' @ '' '' @ ''smith''" by simp
  have h6: "isLikelyPersonName (Some ''john smith'')" by code_simp
  have h7: "\<not> list_ex (\<lambda>t. prefix t (toUpperCase ''john smith'')) titles" by code_simp
  have h8: "toUpperCase ''smith'' \<notin> set suffixes" by code_simp
  from normalizeOwnerKey_fixed_point [OF h1 h2 h3 h4 h5 h6 h7 h8] r h1 h3 h6 h7 h8
  show ?thesis by simp
qed

text \<open>
  Idempotence does not hold for every input. The title of \<open>Miss Jones\<close> is removed, the key
  is the single token \<open>jones\<close>, and a single token is not accepted as a person name: the
  key of the key is empty.
\<close>

theorem normalizeOwnerKey_idempotent_counterexample:
  "normalizeOwnerKey (Some ''Miss Jones'') = ''jones'' \<and>
   normalizeOwnerKey (Some (normalizeOwnerKey (Some ''Miss Jones''))) = [] \<and>
   normalizeOwnerKey (Some (normalizeOwnerKey (Some ''Miss Jones''))) \<noteq>
     normalizeOwnerKey (Some ''Miss Jones'')"
  by code_simp

section \<open>Properties of the approximate median\<close>

lemma foldl_total: "foldl (\<lambda>s b. s + orZero (count b)) z bins = z + totalCount bins"
  by (induction bins arbitrary: z) (simp_all add: totalCount_def)

lemma scanBins_first:
  assumes "k < length bs"
    and "half \<le> cum + sum_list (map (\<lambda>b. orZero (count b)) (take (Suc k) bs))"
    and "\<forall>j<k. cum + sum_list (map (\<lambda>b. orZero (count b)) (take (Suc j) bs)) < half"
  shows "scanBins half ranges cum i bs = bucketValue (rangeAt ranges (i + k))"
  using assms
proof (induction bs arbitrary: cum i k)
  case Nil
  then show ?case by simp
next
  case (Cons b bs)
  show ?case
  proof (cases k)
    case 0
    with Cons.prems show ?thesis by simp
  next
    case (Suc k')
    from Cons.prems(3) Suc have lt: "cum + orZero (count b) < half" by force
    have 1: "k' < length bs" using Cons.prems(1) Suc by simp
    have 2: "half \<le> (cum + orZero (count b)) + sum_list (map (\<lambda>b. orZero (count b)) (take (Suc k') bs))"
      using Cons.prems(2) Suc by (simp add: add.assoc)
    have 3: "\<forall>j<k'. (cum + orZero (count b)) + sum_list (map (\<lambda>b. orZero (count b)) (take (Suc j) bs)) < half"
    proof (intro allI impI)
      fix j assume "j < k'"
      then have "Suc j < k" using Suc by simp
      with Cons.prems(3) show "(cum + orZero (count b)) + sum_list (map (\<lambda>b. orZero (count b)) (take (Suc j) bs)) < half"
        by (force simp: add.assoc)
    qed
    from Cons.IH [OF 1 2 3, of "Suc i"] lt Suc show ?thesis by (simp add: Let_def)
  qed
qed

text \<open>
  Claim C7, as amended. When the total count is not zero, \<open>approxMedianFromBins\<close> returns
  the value of the first bucket, in order, whose cumulative count reaches at least half of
  the total count: the midpoint of its range when the lower bound (zero when absent) is
  below the upper bound, and the lower bound when the bucket has no upper bound or the
  upper bound is not above the lower one. When the total count is zero it returns zero.
  On the bins with counts 10 and 10 and the ranges up to 100 and from 100 to 200 it
  returns 50.
\<close>

theorem approxMedianFromBins_first_bucket:
  "(totalCount bins = 0 \<longrightarrow> approxMedianFromBins bins ranges = 0) \<and>
   (totalCount bins \<noteq> 0 \<longrightarrow> i < length bins \<longrightarrow>
    totalCount bins / 2 \<le> cumCount bins i \<longrightarrow>
    (\<forall>j<i. cumCount bins j < totalCount bins / 2) \<longrightarrow>
    approxMedianFromBins bins ranges =
      (let l = (case lo (rangeAt ranges i) of None \<Rightarrow> 0 | Some x \<Rightarrow> x)
       in case hi (rangeAt ranges i) of
            None \<Rightarrow> l
          | Some h \<Rightarrow> if l < h then (l + h) / 2 else l)) \<and>
   approxMedianFromBins
     [\<lparr>label = [], count = Some 10\<rparr>, \<lparr>label = [], count = Some 10\<rparr>]
     [\<lparr>lo = None, hi = Some 100\<rparr>, \<lparr>lo = Some 100, hi = Some 200\<rparr>] = 50"
proof -
  have t: "foldl (\<lambda>s b. s + orZero (count b)) 0 bins = totalCount bins"
    using foldl_total [of 0 bins] by simp
  have 1: "totalCount bins = 0 \<longrightarrow> approxMedianFromBins bins ranges = 0"
    by (simp add: approxMedianFromBins_def t)
  have 2: "totalCount bins \<noteq> 0 \<longrightarrow> i < length bins \<longrightarrow>
    totalCount bins / 2 \<le> cumCount bins i \<longrightarrow>
    (\<forall>j<i. cumCount bins j < totalCount bins / 2) \<longrightarrow>
    approxMedianFromBins bins ranges =
      (let l = (case lo (rangeAt ranges i) of None \<Rightarrow> 0 | Some x \<Rightarrow> x)
       in case hi (rangeAt ranges i) of
            None \<Rightarrow> l
          | Some h \<Rightarrow> if l < h then (l + h) / 2 else l)"
  proof (intro impI)
    assume nz: "totalCount bins \<noteq> 0" and i: "i < length bins"
      and r: "totalCount bins / 2 \<le> cumCount bins i"
      and f: "\<forall>j<i. cumCount bins j < totalCount bins / 2"
    have "scanBins (totalCount bins / 2) ranges 0 0 bins = bucketValue (rangeAt ranges (0 + i))"
      using i r f by (intro scanBins_first) (simp_all add: cumCount_def)
    then show "approxMedianFromBins bins ranges =
      (let l = (case lo (rangeAt ranges i) of None \<Rightarrow> 0 | Some x \<Rightarrow> x)
       in case hi (rangeAt ranges i) of
            None \<Rightarrow> l
          | Some h \<Rightarrow> if l < h then (l + h) / 2 else l)"
      using nz by (simp add: approxMedianFromBins_def t bucketValue_def Let_def not_less
          split: option.splits)
  qed
  have 3: "approxMedianFromBins
     [\<lparr>label = [], count = Some 10\<rparr>, \<lparr>label = [], count = Some 10\<rparr>]
     [\<lparr>lo = None, hi = Some 100\<rparr>, \<lparr>lo = Some 100, hi = Some 200\<rparr>] = 50"
    by (simp add: approxMedianFromBins_def orZero_def rangeAt_def bucketValue_def)
  from 1 2 3 show ?thesis by blast
qed

theorem approxMedianFromBins_first_bucket_witness:
  "totalCount [\<lparr>label = ''a'', count = Some 1\<rparr>, \<lparr>label = ''b'', count = Some 5\<rparr>,
               \<lparr>label = ''c'', count = Some 2\<rparr>] = 8 \<and>
   cumCount [\<lparr>label = ''a'', count = Some 1\<rparr>, \<lparr>label = ''b'', count = Some 5\<rparr>,
               \<lparr>label = ''c'', count = Some 2\<rparr>] 0 = 1 \<and>
   cumCount [\<lparr>label = ''a'', count = Some 1\<rparr>, \<lparr>label = ''b'', count = Some 5\<rparr>,
               \<lparr>label = ''c'', count = Some 2\<rparr>] 1 = 6 \<and>
   approxMedianFromBins
     [\<lparr>label = ''a'', count = Some 1\<rparr>, \<lparr>label = ''b'', count = Some 5\<rparr>,
      \<lparr>label = ''c'', count = Some 2\<rparr>]
     [\<lparr>lo = Some 0, hi = Some 10\<rparr>, \<lparr>lo = Some 10, hi = Some 30\<rparr>,
      \<lparr>lo = Some 30, hi = None\<rparr>] = 20 \<and>
   totalCount [\<lparr>label = [], count = Some 0\<rparr>] = 0 \<and>
   approxMedianFromBins [\<lparr>label = [], count = Some 0\<rparr>] [\<lparr>lo = Some 100, hi = Some 200\<rparr>] = 0"
proof -
  let ?bins = "[\<lparr>label = ''a'', count = Some 1\<rparr>, \<lparr>label = ''b'', count = Some 5\<rparr>,
               \<lparr>label = ''c'', count = Some 2\<rparr>]"
  let ?ranges = "[\<lparr>lo = Some 0, hi = Some 10\<rparr>, \<lparr>lo = Some 10, hi = Some 30\<rparr>,
      \<lparr>lo = Some 30, hi = None\<rparr>]"
  have t: "totalCount ?bins = 8" by (simp add: totalCount_def orZero_def)
  have c0: "cumCount ?bins 0 = 1" by (simp add: cumCount_def orZero_def)
  have c1: "cumCount ?bins 1 = 6" by (simp add: cumCount_def orZero_def)
  have h1: "totalCount ?bins \<noteq> 0" using t by simp
  have h2: "(1::nat) < length ?bins" by simp
  have h3: "totalCount ?bins / 2 \<le> cumCount ?bins 1" using t c1 by simp
  have h4: "\<forall>j<1. cumCount ?bins j < totalCount ?bins / 2" using t c0 by simp
  have z: "totalCount [\<lparr>label = [], count = Some 0\<rparr>] = 0" by (simp add: totalCount_def orZero_def)
  from approxMedianFromBins_first_bucket [of ?bins ?ranges 1] h1 h2 h3 h4
  have "approxMedianFromBins ?bins ?ranges = 20" by (simp add: rangeAt_def)
  moreover from approxMedianFromBins_first_bucket [of "[\<lparr>label = [], count = Some 0\<rparr>]" "[\<lparr>lo = Some 100, hi = Some 200\<rparr>]"] z
  have "approxMedianFromBins [\<lparr>label = [], count = Some 0\<rparr>] [\<lparr>lo = Some 100, hi = Some 200\<rparr>] = 0"
    by blast
  ultimately show ?thesis using t c0 c1 z by simp
qed

text \<open>
  Without the condition on the total the claim fails: in a histogram with one bucket of
  count zero, the cumulative count of that bucket reaches half of the total, and the
  function returns zero, not the midpoint of the bucket.
\<close>

theorem approxMedianFromBins_midpoint_counterexample:
  "cumCount [\<lparr>label = [], count = Some 0\<rparr>] 0 \<ge> totalCount [\<lparr>label = [], count = Some 0\<rparr>] / 2 \<and>
   approxMedianFromBins [\<lparr>label = [], count = Some 0\<rparr>] [\<lparr>lo = Some 100, hi = Some 200\<rparr>] = 0 \<and>
   approxMedianFromBins [\<lparr>label = [], count = Some 0\<rparr>] [\<lparr>lo = Some 100, hi = Some 200\<rparr>]
     \<noteq> (100 + 200) / 2"
  by (simp add: approxMedianFromBins_def cumCount_def totalCount_def orZero_def)

section \<open>Properties of the retrying fetch client\<close>

lemma digitChar_cases:
  assumes "d < 10"
  shows "isDigit (digitChar d)"
    and "digitChar d = CHR ''4'' \<longleftrightarrow> d = 4"
    and "digitChar d = CHR ''2'' \<longleftrightarrow> d = 2"
    and "digitChar d = CHR ''9'' \<longleftrightarrow> d = 9"
    and "digitChar d = CHR ''5'' \<longleftrightarrow> d = 5"
proof -
  from assms have "d = 0 \<or> d = 1 \<or> d = 2 \<or> d = 3 \<or> d = 4 \<or> d = 5 \<or> d = 6 \<or> d = 7 \<or> d = 8 \<or> d = 9"
    by arith
  then show "isDigit (digitChar d)"
    and "digitChar d = CHR ''4'' \<longleftrightarrow> d = 4"
    and "digitChar d = CHR ''2'' \<longleftrightarrow> d = 2"
    and "digitChar d = CHR ''9'' \<longleftrightarrow> d = 9"
    and "digitChar d = CHR ''5'' \<longleftrightarrow> d = 5"
    by (elim disjE; simp add: digitChar_def digits_def isDigit_def)+
qed

lemma showNat_three:
  assumes "100 \<le> st" and "st \<le> 999"
  shows "showNat st = [digitChar (st div 10 div 10), digitChar (st div 10 mod 10), digitChar (st mod 10)]"
proof -
  have a: "st div 10 div 10 < 10" using assms by simp
  have b: "\<not> st < 10" "\<not> st div 10 < 10" using assms by simp_all
  have "showNat (st div 10 div 10) = [digitChar (st div 10 div 10)]"
    using a by (subst showNat.simps) simp
  then have "showNat (st div 10) = [digitChar (st div 10 div 10), digitChar (st div 10 mod 10)]"
    using b by (subst showNat.simps) simp
  then show ?thesis
    using b by (subst showNat.simps) simp
qed

lemma retriable_http_three:
  "retriable (''HTTP '' @ [a, b, c]) \<longleftrightarrow>
     (a = CHR ''4'' \<and> b = CHR ''2'' \<and> c = CHR ''9'') \<or> (a = CHR ''5'' \<and> isDigit b \<and> isDigit c)"
  by (auto simp: retriableAt_def)


lemma step_arith:
  fixes a b c :: nat
  assumes "a < 10" "b < 10" "c < 10"
  shows "((a = 4 \<and> b = 2 \<and> c = 9) \<or> a = 5) \<longleftrightarrow>
     (100 * a + 10 * b + c = 429 \<or> (500 \<le> 100 * a + 10 * b + c \<and> 100 * a + 10 * b + c \<le> 599))"
proof -
  consider "a \<le> 3" | "a = 4" | "a = 5" | "6 \<le> a" by linarith
  then show ?thesis
  proof cases
    case 1
    then have "100 * a + 10 * b + c < 400" using assms by linarith
    with 1 show ?thesis by simp
  next
    case 2
    have "(b = 2 \<and> c = 9) \<longleftrightarrow> 10 * b + c = 29" using assms(3) by presburger
    with 2 show ?thesis using assms(2,3) by simp
  next
    case 3
    with assms show ?thesis by simp
  next
    case 4
    then have "600 \<le> 100 * a + 10 * b + c" by linarith
    with 4 show ?thesis by simp
  qed
qed


lemma retriable_status:
  assumes "100 \<le> st" and "st \<le> 999"
  shows "retriable (errorText (Error (''HTTP '' @ showNat st))) \<longleftrightarrow> st = 429 \<or> (500 \<le> st \<and> st \<le> 599)"
proof -
  define a b c where "a = st div 10 div 10" and "b = st div 10 mod 10" and "c = st mod 10"
  have lt: "a < 10" "b < 10" "c < 10" using assms by (simp_all add: a_def b_def c_def)
  have "st = 10 * (st div 10) + c" by (simp add: c_def)
  moreover have "st div 10 = 10 * a + b" by (simp add: a_def b_def)
  ultimately have st: "st = 100 * a + 10 * b + c" by simp
  have "showNat st = [digitChar a, digitChar b, digitChar c]"
    unfolding a_def b_def c_def by (rule showNat_three [OF assms])
  then have "errorText (Error (''HTTP '' @ showNat st)) = ''HTTP '' @ [digitChar a, digitChar b, digitChar c]"
    by (simp add: errorText_def Error_def)
  then have "retriable (errorText (Error (''HTTP '' @ showNat st))) \<longleftrightarrow>
      (digitChar a = CHR ''4'' \<and> digitChar b = CHR ''2'' \<and> digitChar c = CHR ''9'') \<or>
      (digitChar a = CHR ''5'' \<and> isDigit (digitChar b) \<and> isDigit (digitChar c))"
    by (simp only: retriable_http_three)
  also have "\<dots> \<longleftrightarrow> (a = 4 \<and> b = 2 \<and> c = 9) \<or> a = 5"
    by (simp only: digitChar_cases [OF lt(1)] digitChar_cases [OF lt(2)] digitChar_cases [OF lt(3)]
        simp_thms)
  also have "\<dots> \<longleftrightarrow> st = 429 \<or> (500 \<le> st \<and> st \<le> 599)"
    unfolding st by (rule step_arith [OF lt])
  finally show ?thesis .
qed

lemma retryLoop_bound: "snd (retryLoop fetch sig retries a) \<le> max (a + 1) (retries + 1)"
proof (induction fetch sig retries a rule: retryLoop.induct)
  case (1 fetch sig retries attempt)
  show ?case
    using 1 by (subst retryLoop.simps) (auto split: sum.splits)
qed

lemma retryLoop_transient:
  "a \<le> i \<Longrightarrow> i + 1 < snd (retryLoop fetch sig retries a) \<Longrightarrow>
     \<exists>e. fetchJSON (fetch i) = Inl e \<and> retriable (errorText e)"
proof (induction fetch sig retries a rule: retryLoop.induct)
  case (1 fetch sig retries attempt)
  show ?case
  proof (cases "fetchJSON (fetch attempt)")
    case (Inr j)
    with "1.prems" show ?thesis by (subst (asm) retryLoop.simps) simp
  next
    case (Inl e)
    show ?thesis
    proof (cases "\<not> retriable (errorText e) \<or> attempt \<ge> retries \<or> aborted sig attempt \<or> sig = Some (InWait attempt)")
      case True
      with "1.prems" Inl show ?thesis
        by (subst (asm) retryLoop.simps) (auto split: if_splits)
    next
      case False
      with "1.prems"(2) Inl have s: "i + 1 < snd (retryLoop fetch sig retries (attempt + 1))"
        by (subst (asm) retryLoop.simps) (auto split: if_splits)
      show ?thesis
      proof (cases "i = attempt")
        case True
        with Inl False show ?thesis by auto
      next
        case ne: False
        with "1.prems"(1) have "attempt + 1 \<le> i" by simp
        from "1.IH" [OF Inl _ _ this s] False show ?thesis by auto
      qed
    qed
  qed
qed

lemma retryLoop_abort_in_wait:
  assumes "k < retries" and "\<forall>i\<le>k. \<exists>e. fetchJSON (fetch i) = Inl e \<and> retriable (errorText e)"
  shows "a \<le> k \<Longrightarrow> retryLoop fetch (Some (InWait k)) retries a = (Inl AbortError, k + 1)"
proof (induction "k - a" arbitrary: a)
  case 0
  then have a: "a = k" by simp
  from assms(2) obtain e where "fetchJSON (fetch k) = Inl e" "retriable (errorText e)" by blast
  then show ?case
    using assms(1) by (subst retryLoop.simps) (simp add: a aborted_def)
next
  case (Suc n)
  then have lt: "a < k" by simp
  from assms(2) lt obtain e where "fetchJSON (fetch a) = Inl e" "retriable (errorText e)"
    by (metis less_imp_le)
  moreover have "retryLoop fetch (Some (InWait k)) retries (a + 1) = (Inl AbortError, k + 1)"
    using Suc lt by (intro Suc.hyps(1)) simp_all
  ultimately show ?case
    using assms(1) lt by (subst retryLoop.simps) (simp add: aborted_def)
qed


lemma fetchJSON_not_ok: "\<not> ok st \<Longrightarrow> fetchJSON (Responded st b) = Inl (Error (''HTTP '' @ showNat st))"
  by (simp add: fetchJSON_def)

lemma showNat_503: "showNat 503 = ''503''"
  by code_simp

lemma showNat_404: "showNat 404 = ''404''"
  by code_simp

lemma fetchJSON_503: "fetchJSON (Responded 503 b) = Inl (Error ''HTTP 503'')"
  by (simp add: fetchJSON_not_ok ok_def showNat_503)

lemma fetchJSON_404: "fetchJSON (Responded 404 b) = Inl (Error ''HTTP 404'')"
  by (simp add: fetchJSON_not_ok ok_def showNat_404)

lemma retriable_503: "retriable (errorText (Error ''HTTP 503''))"
  by code_simp

lemma not_retriable_404: "\<not> retriable (errorText (Error ''HTTP 404''))"
  by code_simp

lemma retryLoop_ge: "a + 1 \<le> snd (retryLoop fetch sig retries a)"
proof (induction fetch sig retries a rule: retryLoop.induct)
  case (1 fetch sig retries attempt)
  show ?case
    using 1 by (subst retryLoop.simps) (auto split: sum.splits)
qed

lemma retryLoop_continues:
  assumes "k \<le> retries"
    and "\<forall>i<k. \<exists>e. fetchJSON (fetch i) = Inl e \<and> retriable (errorText e)"
  shows "a \<le> k \<Longrightarrow> k + 1 \<le> snd (retryLoop fetch None retries a)"
proof (induction "k - a" arbitrary: a)
  case 0
  then have "a = k" by simp
  then show ?case using retryLoop_ge [of k fetch None retries] by simp
next
  case (Suc n)
  then have lt: "a < k" by simp
  with assms(2) obtain e where "fetchJSON (fetch a) = Inl e" "retriable (errorText e)"
    by blast
  moreover have "k + 1 \<le> snd (retryLoop fetch None retries (a + 1))"
    using Suc lt by (intro Suc.hyps(1)) simp_all
  ultimately show ?case
    using assms(1) lt by (subst retryLoop.simps) (simp add: aborted_def)
qed

text \<open>
  Claim C4, as amended. The client retries exactly the failures whose error text matches
  \<^verbatim>\<open>/HTTP (429|5\d\d)/\<close>, up to the bound \<open>retries\<close>: at most \<open>retries + 1\<close> requests are
  made; a request is followed by another one only when it failed with such a text; and,
  with no cancellation, after \<open>k\<close> such failures within the bound the next request is made.
  The error for a response of status \<open>st\<close> (three digits) has such a text exactly when \<open>st\<close>
  is 429 or between 500 and 599, so every response with status 429 or 5xx is retried; any
  other error whose message contains such a text is retried as well. When the first two
  requests are answered with status 503 and the third succeeds, the result is the success,
  after exactly three requests (for a bound of at least two; the default is four). When
  the first request is answered with status 404, the call fails with that error after one
  request.
\<close>

theorem fetchJSONWithRetry_transient:
  "(stub 0 = Responded 503 b0 \<longrightarrow> stub 1 = Responded 503 b1 \<longrightarrow>
    stub 2 = Responded 200 (Inr j) \<longrightarrow> \<not> truthy (error j) \<longrightarrow> 2 \<le> n \<longrightarrow>
      fetchJSONWithRetry stub None n = (Inr j, 3)) \<and>
   (stub' 0 = Responded 404 b \<longrightarrow>
      fetchJSONWithRetry stub' sig' n' = (Inl (Error ''HTTP 404''), 1)) \<and>
   snd (fetchJSONWithRetry fetch sig retries) \<le> retries + 1 \<and>
   (i + 1 < snd (fetchJSONWithRetry fetch sig retries) \<longrightarrow>
      (\<exists>e. fetchJSON (fetch i) = Inl e \<and> retriable (errorText e))) \<and>
   (k \<le> retries \<longrightarrow>
    (\<forall>i<k. \<exists>e. fetchJSON (fetch i) = Inl e \<and> retriable (errorText e)) \<longrightarrow>
      k + 1 \<le> snd (fetchJSONWithRetry fetch None retries)) \<and>
   (100 \<le> st \<longrightarrow> st \<le> 999 \<longrightarrow>
      (retriable (errorText (Error (''HTTP '' @ showNat st))) \<longleftrightarrow>
         st = 429 \<or> (500 \<le> st \<and> st \<le> 599)))"
proof -
  have 1: "stub 0 = Responded 503 b0 \<longrightarrow> stub 1 = Responded 503 b1 \<longrightarrow>
    stub 2 = Responded 200 (Inr j) \<longrightarrow> \<not> truthy (error j) \<longrightarrow> 2 \<le> n \<longrightarrow>
      fetchJSONWithRetry stub None n = (Inr j, 3)"
  proof (intro impI)
    assume s: "stub 0 = Responded 503 b0" "stub 1 = Responded 503 b1"
      "stub 2 = Responded 200 (Inr j)" and j: "\<not> truthy (error j)" and n: "2 \<le> n"
    have "fetchJSON (stub 2) = Inr j" using s(3) j by (simp add: fetchJSON_def ok_def)
    then have "retryLoop stub None n 2 = (Inr j, 3)"
      by (subst retryLoop.simps) simp
    then have "retryLoop stub None n (1 + 1) = (Inr j, 3)" by (simp add: numeral_2_eq_2)
    then have "retryLoop stub None n 1 = (Inr j, 3)"
      using s(2) n
      by (subst retryLoop.simps) (simp add: fetchJSON_503 retriable_503 aborted_def)
    then have "retryLoop stub None n (0 + 1) = (Inr j, 3)" by simp
    then have "retryLoop stub None n 0 = (Inr j, 3)"
      using s(1) n
      by (subst retryLoop.simps) (simp add: fetchJSON_503 retriable_503 aborted_def)
    then show "fetchJSONWithRetry stub None n = (Inr j, 3)"
      by (simp add: fetchJSONWithRetry_def)
  qed
  have 2: "stub' 0 = Responded 404 b \<longrightarrow>
      fetchJSONWithRetry stub' sig' n' = (Inl (Error ''HTTP 404''), 1)"
    unfolding fetchJSONWithRetry_def
    by (subst retryLoop.simps) (simp add: fetchJSON_404 not_retriable_404)
  have 3: "snd (fetchJSONWithRetry fetch sig retries) \<le> retries + 1"
    using retryLoop_bound [of fetch sig retries 0] by (simp add: fetchJSONWithRetry_def)
  have 4: "i + 1 < snd (fetchJSONWithRetry fetch sig retries) \<longrightarrow>
      (\<exists>e. fetchJSON (fetch i) = Inl e \<and> retriable (errorText e))"
    using retryLoop_transient [of 0 i fetch sig retries] by (simp add: fetchJSONWithRetry_def)
  have 5: "100 \<le> st \<longrightarrow> st \<le> 999 \<longrightarrow>
      (retriable (errorText (Error (''HTTP '' @ showNat st))) \<longleftrightarrow>
         st = 429 \<or> (500 \<le> st \<and> st \<le> 599))"
    using retriable_status [of st] by blast
  have 6: "k \<le> retries \<longrightarrow>
    (\<forall>i<k. \<exists>e. fetchJSON (fetch i) = Inl e \<and> retriable (errorText e)) \<longrightarrow>
      k + 1 \<le> snd (fetchJSONWithRetry fetch None retries)"
    using retryLoop_continues [of k retries fetch 0] by (simp add: fetchJSONWithRetry_def)
  from 1 2 3 4 5 6 show ?thesis by blast
qed

theorem fetchJSONWithRetry_transient_witness:
  "fetchJSONWithRetry
     (\<lambda>k. if k < 2 then Responded 503 (Inl (Error [])) else Responded 200 (Inr \<lparr>error = None, payload = ()\<rparr>))
     None 4 = (Inr \<lparr>error = None, payload = ()\<rparr>, 3) \<and>
   fetchJSONWithRetry (\<lambda>k. Responded 404 (Inl (Error [])) :: unit fetch_outcome) None 4
     = (Inl (Error ''HTTP 404''), 1) \<and>
   fetchJSON (Responded 503 (Inl (Error [])) :: unit fetch_outcome) = Inl (Error ''HTTP 503'') \<and>
   retriable (errorText (Error (''HTTP '' @ showNat 503))) \<and>
   (2::nat) \<le> 4 \<and>
   2 + 1 \<le> snd (fetchJSONWithRetry
     (\<lambda>k. if k < 2 then Responded 503 (Inl (Error [])) else Responded 200 (Inr \<lparr>error = None, payload = ()\<rparr>))
     None 4)"
proof -
  let ?stub = "\<lambda>k::nat. if k < 2 then Responded 503 (Inl (Error []))
                 else Responded 200 (Inr \<lparr>error = None, payload = ()\<rparr>)"
  let ?stub' = "\<lambda>k::nat. Responded 404 (Inl (Error [])) :: unit fetch_outcome"
  note t = fetchJSONWithRetry_transient [of ?stub "Inl (Error [])" "Inl (Error [])"
      "\<lparr>error = None, payload = ()\<rparr>" 4 ?stub' "Inl (Error [])" None 4 ?stub None 4 0 2 503]
  have a: "fetchJSONWithRetry ?stub None 4 = (Inr \<lparr>error = None, payload = ()\<rparr>, 3)"
    using t by (simp add: truthy_def)
  have b: "fetchJSONWithRetry ?stub' None 4 = (Inl (Error ''HTTP 404''), 1)"
    using t by simp
  from t a have "\<exists>e. fetchJSON (?stub 0) = Inl e \<and> retriable (errorText e)" by simp
  have c: "fetchJSON (Responded 503 (Inl (Error [])) :: unit fetch_outcome) = Inl (Error ''HTTP 503'')"
    by (rule fetchJSON_503)
  from t have d: "retriable (errorText (Error (''HTTP '' @ showNat 503)))" by simp
  have h: "\<forall>i<2. \<exists>e. fetchJSON (?stub i) = Inl e \<and> retriable (errorText e)"
    by (simp add: fetchJSON_503 retriable_503)
  from t h have e: "2 + 1 \<le> snd (fetchJSONWithRetry ?stub None 4)" by simp
  from a b c d e show ?thesis by simp
qed

text \<open>
  The unamended claim, that only responses with status 429 or 5xx are retried, fails: a
  response with status 200 whose body carries the error message \<open>HTTP 503 upstream\<close> is a
  failure with a matching text, and a second request follows it.
\<close>

theorem fetchJSONWithRetry_transient_counterexample:
  "ok 200 \<and>
   fetchJSON (Responded 200
       (Inr \<lparr>error = Some (ErrorObject (Some ''HTTP 503 upstream'')), payload = ()\<rparr>))
     = Inl (Error ''HTTP 503 upstream'') \<and>
   fetchJSONWithRetry
     (\<lambda>k. if k = 0
           then Responded 200
                  (Inr \<lparr>error = Some (ErrorObject (Some ''HTTP 503 upstream'')), payload = ()\<rparr>)
           else Responded 200 (Inr \<lparr>error = None, payload = ()\<rparr>))
     None 4 = (Inr \<lparr>error = None, payload = ()\<rparr>, 2)"
  by code_simp

text \<open>
  Claim C5. When the signal fires during the backoff wait after request \<open>k\<close> (so the
  requests up to \<open>k\<close> failed with transient errors and the bound allowed a retry), the call
  is rejected with the \<open>AbortError\<close> and the requests made are the \<open>k + 1\<close> made before the
  wait: none follows the cancellation.
\<close>

theorem fetchJSONWithRetry_abort_during_backoff:
  assumes "k < retries"
    and "\<forall>i\<le>k. \<exists>e. fetchJSON (fetch i) = Inl e \<and> retriable (errorText e)"
  shows "fetchJSONWithRetry fetch (Some (InWait k)) retries = (Inl AbortError, k + 1) \<and>
         name AbortError = ''AbortError''"
  using retryLoop_abort_in_wait [OF assms, of 0]
  by (simp add: fetchJSONWithRetry_def AbortError_def)

theorem fetchJSONWithRetry_abort_during_backoff_witness:
  "(1::nat) < 4 \<and>
   fetchJSON (Responded 503 (Inl (Error [])) :: unit fetch_outcome) = Inl (Error ''HTTP 503'') \<and>
   retriable (errorText (Error ''HTTP 503'')) \<and>
   fetchJSONWithRetry (\<lambda>k. Responded 503 (Inl (Error [])) :: unit fetch_outcome) (Some (InWait 1)) 4
     = (Inl AbortError, 2)"
proof -
  let ?stub = "\<lambda>k::nat. Responded 503 (Inl (Error [])) :: unit fetch_outcome"
  have h1: "(1::nat) < 4" by simp
  have h2: "\<forall>i\<le>1. \<exists>e. fetchJSON (?stub i) = Inl e \<and> retriable (errorText e)"
    by (simp add: fetchJSON_503 retriable_503)
  from fetchJSONWithRetry_abort_during_backoff [OF h1 h2] h1
  show ?thesis by (simp add: fetchJSON_503 retriable_503)
qed

section \<open>Properties of the export orchestrator\<close>

lemma er_signalAborted [simp]: "exportRunning (snd (signalAborted env s)) = exportRunning s"
  by (simp add: signalAborted_def)

lemma er_appendLog [simp]: "exportRunning (appendLog l s) = exportRunning s"
  by (simp add: appendLog_def)

lemma er_record_event [simp]: "exportRunning (record_event ev s) = exportRunning s"
  by (simp add: record_event_def)

lemma er_appendRows [simp]: "exportRunning (appendRows cfg rows s) = exportRunning s"
  by (simp add: appendRows_def)

lemma er_sleep [simp]: "exportRunning (snd (sleep env s)) = exportRunning s"
  by (simp add: sleep_def signalAborted_def split: bool.splits)


lemma er_postNDJSON [simp]: "exportRunning (snd (postNDJSON env b s)) = exportRunning s"
  by (simp add: postNDJSON_def Let_def split: post_outcome.splits)

lemma er_postBatches [simp]: "exportRunning (snd (postBatches env bs s)) = exportRunning s"
proof (induction bs arbitrary: s)
  case Nil
  then show ?case by simp
next
  case (Cons b bs)
  obtain f s' where r: "postNDJSON env b s = (f, s')" by (cases "postNDJSON env b s")
  then have "exportRunning s' = exportRunning s"
    using er_postNDJSON [of env b s] by simp
  with r Cons.IH [of s'] show ?case by (cases f) simp_all
qed













lemma clean_append [simp]: "clean (xs @ ys) \<longleftrightarrow> clean xs \<and> clean ys"
  by (simp add: clean_def)

lemma clean_Nil [simp]: "clean []"
  by (simp add: clean_def)

lemma clean_Cons [simp]: "clean (ev # tr) \<longleftrightarrow> \<not> failedPost ev \<and> clean tr"
  by (simp add: clean_def)

lemma trace_signalAborted [simp]: "trace (snd (signalAborted env s)) = trace s"
  by (simp add: signalAborted_def)

lemma trace_appendLog [simp]: "trace (appendLog l s) = trace s"
  by (simp add: appendLog_def)

lemma trace_appendRows [simp]: "trace (appendRows cfg rows s) = trace s"
  by (simp add: appendRows_def)

lemma trace_record_event [simp]: "trace (record_event ev s) = trace s @ [ev]"
  by (simp add: record_event_def)

lemma trace_countQuery [simp]: "trace (snd (countQuery env z s)) = trace s @ [CountQuery z]"
  by (simp add: countQuery_def)

lemma failedPost_simps [simp]:
  "\<not> failedPost (CountQuery z)" "\<not> failedPost (PageQuery z n)" "\<not> failedPost (Download f rows)"
  "\<not> failedPost (Post b (PostRejected e))" "failedPost (Post b (PostStatus st)) \<longleftrightarrow> \<not> ok st"
  by (simp_all add: failedPost_def)

lemma sound_sleep: "clean (trace s) \<Longrightarrow> sound (sleep env s)"
  by (simp add: sleep_def sound_def signalAborted_def split: prod.splits bool.splits)

lemma sound_postNDJSON: "clean (trace s) \<Longrightarrow> sound (postNDJSON env b s)"
  by (auto simp: postNDJSON_def sound_def hookFailed_def Let_def split: post_outcome.splits)

lemma sound_Normal: "sound (Normal, s) \<longleftrightarrow> clean (trace s)"
  by (simp add: sound_def)

lemma sound_Hang: "sound (Hang, s) \<longleftrightarrow> clean (trace s)"
  by (simp add: sound_def)

lemma sound_clean: "clean (trace s) \<Longrightarrow> sound (f, s)"
  by (simp add: sound_def)

lemma sound_postBatches: "clean (trace s) \<Longrightarrow> sound (postBatches env bs s)"
proof (induction bs arbitrary: s)
  case Nil
  then show ?case by (simp add: sound_Normal)
next
  case (Cons b bs)
  obtain f s' where r: "postNDJSON env b s = (f, s')" by (cases "postNDJSON env b s")
  with sound_postNDJSON [OF Cons.prems, of env b] have s: "sound (f, s')" by simp
  show ?case
  proof (cases f)
    case Normal
    with s have "clean (trace s')" by (simp add: sound_Normal)
    then have "sound (postBatches env bs s')" by (rule Cons.IH)
    with r Normal show ?thesis by simp
  next
    case (Throw e)
    with r s show ?thesis by simp
  next
    case Hang
    with r s show ?thesis by simp
  qed
qed

lemma sound_processPage:
  assumes "clean (trace s)"
  shows "sound (processPage env cfg z zipTotal processed feats s)"
proof -
  define mapped where "mapped = (if ownerScope cfg \<noteq> Both
       then filter (\<lambda>r. ownerPasses (ownerScope cfg) (py_owner_name (feat r))) (map mapFeature feats)
       else map mapFeature feats)"
  define s1 where "s1 = appendRows cfg mapped s"
  define posted where "posted = (if webhookUrl cfg \<noteq> []
                   then (case chunkArray mapped (webhookBatchSize cfg) of
                           None \<Rightarrow> (Hang, s1)
                         | Some batches \<Rightarrow> postBatches env batches s1)
                   else (Normal, s1))"
  have c1: "clean (trace s1)" using assms by (simp add: s1_def)
  have sp: "sound posted"
    unfolding posted_def using c1
    by (auto simp: sound_Normal sound_Hang sound_postBatches split: option.splits)
  obtain f s2 where p: "posted = (f, s2)" by (cases posted)
  have eq: "processPage env cfg z zipTotal processed feats s =
    (case posted of
          (Normal, s2) \<Rightarrow>
            let processedForZip = processed + length feats;
                s3 = s2\<lparr>perZipProgress := (perZipProgress s2)(z \<mapsto>
                          (min processedForZip (if zipTotal = 0 then processedForZip else zipTotal),
                           zipTotal)),
                        exportTotalRows := exportTotalRows s2 + length feats\<rparr>
            in if throttleMs cfg > 0 then sleep env s3 else (Normal, s3)
        | (f, s2) \<Rightarrow> (f, s2))"
    unfolding processPage_def posted_def s1_def mapped_def Let_def ..
  show ?thesis
  proof (cases f)
    case Normal
    with sp p have "clean (trace s2)" by (simp add: sound_Normal)
    then show ?thesis
      unfolding eq p Normal by (simp add: Let_def sound_Normal sound_sleep)
  next
    case (Throw e)
    with sp p show ?thesis unfolding eq by simp
  next
    case Hang
    with sp p show ?thesis unfolding eq by simp
  qed
qed

lemma sound_pageLoop:
  "clean (trace s) \<Longrightarrow> sound3 (pageLoop env cfg z zipTotal offset ps s)"
proof (induction ps arbitrary: s offset)
  case Nil
  then show ?case
    by (simp add: sound3_def sound_def signalAborted_def split: bool.splits)
next
  case (Cons p ps)
  show ?case
  proof (cases "cancelled env (checks s)")
    case True
    with Cons.prems show ?thesis
      by (simp add: sound3_def sound_def signalAborted_def)
  next
    case nc: False
    define s2 where "s2 = record_event (PageQuery z offset) (s\<lparr>checks := checks s + 1\<rparr>)"
    have c2: "clean (trace s2)" using Cons.prems by (simp add: s2_def)
    show ?thesis
    proof (cases p)
      case (Inl e)
      with nc c2 show ?thesis
        by (simp add: sound3_def sound_def signalAborted_def s2_def)
    next
      case (Inr feats)
      show ?thesis
      proof (cases "feats = []")
        case True
        with nc c2 Inr show ?thesis
          by (simp add: sound3_def sound_def signalAborted_def s2_def)
      next
        case ne: False
        obtain f s3 where r: "processPage env cfg z zipTotal offset feats s2 = (f, s3)"
          by (cases "processPage env cfg z zipTotal offset feats s2")
        with sound_processPage [OF c2, of env cfg z zipTotal offset feats]
        have s: "sound (f, s3)" by simp
        have eq: "pageLoop env cfg z zipTotal offset (p # ps) s =
            (case (f, s3) of
               (Normal, s3) \<Rightarrow> pageLoop env cfg z zipTotal (offset + length feats) ps s3
             | (f, s3) \<Rightarrow> (f, offset, s3))"
          using nc Inr ne r by (simp add: signalAborted_def s2_def)
        show ?thesis
        proof (cases f)
          case Normal
          with s have "clean (trace s3)" by (simp add: sound_Normal)
          then have "sound3 (pageLoop env cfg z zipTotal (offset + length feats) ps s3)"
            by (rule Cons.IH)
          with Normal show ?thesis unfolding eq by simp
        next
          case (Throw e)
          with s show ?thesis unfolding eq by (simp add: sound3_def)
        next
          case Hang
          with s show ?thesis unfolding eq by (simp add: sound3_def)
        qed
      qed
    qed
  qed
qed


lemma sound_exportZip:
  assumes "clean (trace s)"
  shows "sound (exportZip env cfg z s)"
proof (cases "cancelled env (checks s)")
  case True
  with assms show ?thesis
    by (simp add: exportZip_def signalAborted_def sound_def)
next
  case nc: False
  let ?s1 = "appendLog (LogStarting (zip' z)) (snd (signalAborted env s))"
  let ?s2 = "?s1\<lparr>perZipProgress := (perZipProgress ?s1)(zip' z \<mapsto> (0, count' z)),
                  perZipBuilder := []\<rparr>"
  obtain r s3 where cq: "countQuery env (zip' z) ?s2 = (r, s3)"
    by (cases "countQuery env (zip' z) ?s2")
  let ?zipTotal = "case r of Inr c \<Rightarrow> c | Inl e \<Rightarrow> count' z"
  let ?s4 = "s3\<lparr>perZipProgress := (perZipProgress s3)(zip' z \<mapsto> (0, ?zipTotal))\<rparr>"
  have "trace s3 = trace ?s2 @ [CountQuery (zip' z)]"
    using trace_countQuery [of env "zip' z" ?s2] cq by simp
  then have c4: "clean (trace ?s4)" using assms by simp
  obtain f n s5 where pl: "pageLoop env cfg (zip' z) ?zipTotal 0 (pages env (zip' z)) ?s4 = (f, n, s5)"
    by (cases "pageLoop env cfg (zip' z) ?zipTotal 0 (pages env (zip' z)) ?s4")
  with sound_pageLoop [OF c4, of env cfg "zip' z" ?zipTotal 0 "pages env (zip' z)"]
  have s: "sound (f, s5)" by (simp add: sound3_def)
  have sa: "signalAborted env s = (False, snd (signalAborted env s))"
    using nc by (simp add: signalAborted_def)
  have eq: "exportZip env cfg z s =
      (case (f, n, s5) of
         (Normal, processedForZip, s5) \<Rightarrow>
           let s6 = (if exportMode cfg = PerZip
                     then record_event
                            (Download (filePrefix cfg @ ''_'' @ zip' z @ ''.csv'')
                               (perZipBuilder s5)) s5
                     else s5)
           in (Normal, appendLog (LogFinished (zip' z) processedForZip) s6)
       | (f, processedForZip, s5) \<Rightarrow> (f, s5))"
    unfolding exportZip_def
    by (subst sa) (simp only: prod.case bool.case Let_def cq pl)
  show ?thesis
  proof (cases f)
    case Normal
    with s have "clean (trace s5)" by (simp add: sound_Normal)
    with Normal show ?thesis unfolding eq by (simp add: Let_def sound_Normal)
  next
    case (Throw e)
    with s show ?thesis unfolding eq by simp
  next
    case Hang
    with s show ?thesis unfolding eq by simp
  qed
qed

lemma sound_zipLoop: "clean (trace s) \<Longrightarrow> sound (zipLoop env cfg zs s)"
proof (induction zs arbitrary: s)
  case Nil
  then show ?case by (simp add: sound_Normal)
next
  case (Cons z zs)
  obtain f s' where r: "exportZip env cfg z s = (f, s')" by (cases "exportZip env cfg z s")
  with sound_exportZip [OF Cons.prems, of env cfg z] have s: "sound (f, s')" by simp
  show ?case
  proof (cases f)
    case Normal
    with s have "clean (trace s')" by (simp add: sound_Normal)
    then have "sound (zipLoop env cfg zs s')" by (rule Cons.IH)
    with r Normal show ?thesis by simp
  next
    case (Throw e)
    with r s show ?thesis by simp
  next
    case Hang
    with r s show ?thesis by simp
  qed
qed

lemma clean_precountLoop:
  "clean (trace s) \<Longrightarrow> clean (trace (snd (precountLoop env zs totals s)))"
proof (induction zs arbitrary: s totals)
  case Nil
  then show ?case by simp
next
  case (Cons z zs)
  obtain r s' where cq: "countQuery env (zip' z) s = (r, s')" by (cases "countQuery env (zip' z) s")
  have "trace s' = trace s @ [CountQuery (zip' z)]"
    using trace_countQuery [of env "zip' z" s] cq by simp
  with Cons.prems have c: "clean (trace s')" by simp
  show ?case
  proof (cases r)
    case (Inl e)
    with cq c show ?thesis by simp
  next
    case (Inr n)
    with cq Cons.IH [OF c] show ?thesis by simp
  qed
qed

lemma clean_precount: "clean (trace s) \<Longrightarrow> clean (trace (precount env cfg s))"
proof -
  assume c: "clean (trace s)"
  obtain r s' where p: "precountLoop env (exportZipList cfg) Map.empty s = (r, s')"
    by (cases "precountLoop env (exportZipList cfg) Map.empty s")
  with clean_precountLoop [OF c, of env "exportZipList cfg" Map.empty] have "clean (trace s')" by simp
  with p show ?thesis
    by (cases r) (simp_all add: precount_def Let_def)
qed

lemma hookFailed_last:
  assumes "hookFailed tr e" and "tr = pre @ [Post b (PostStatus st)] @ rest" and "\<not> ok st"
  shows "rest = [] \<and> e = Error (''Webhook HTTP '' @ showNat st)"
proof -
  from assms(1) obtain pre' b' st' where tr: "tr = pre' @ [Post b' (PostStatus st')]"
    and c: "clean pre'" and e: "e = Error (''Webhook HTTP '' @ showNat st')"
    by (auto simp: hookFailed_def)
  have rest: "rest = []"
  proof (rule ccontr)
    assume "rest \<noteq> []"
    then obtain r x where rx: "rest = r @ [x]" by (cases rest rule: rev_cases) auto
    with tr assms(2) have "pre' = pre @ [Post b (PostStatus st)] @ r" by simp
    with c assms(3) show False by simp
  qed
  with tr assms(2) have "st' = st" by simp
  with rest e show ?thesis by simp
qed

lemma clean_no_failed:
  "clean tr \<Longrightarrow> tr = pre @ [Post b (PostStatus st)] @ rest \<Longrightarrow> ok st"
  by auto

text \<open>
  Claim C9. When a webhook POST of a run is answered with a status outside the success
  range, it is the last thing the run does on the network: no page query, count query,
  POST or download follows, for this ZIP or a later one. The call settles, \<open>exportRunning\<close>
  is cleared, and the error \<open>Webhook HTTP <status>\<close> is stored and logged.
\<close>

theorem webhook_failure_aborts_job:
  assumes "trace s0 = []"
    and "startExport env cfg s0 = (f, s)"
    and "trace s = pre @ [Post b (PostStatus st)] @ rest"
    and "\<not> ok st"
  shows "f = Normal \<and> rest = [] \<and> \<not> exportRunning s \<and>
         exportError s = Some (''Webhook HTTP '' @ showNat st) \<and>
         last (exportLog s) = LogError (''Webhook HTTP '' @ showNat st)"
proof (cases "exportZipList cfg = []")
  case True
  with assms(1,2) have "trace s = []" by (auto simp: startExport_def startExport_begin_def)
  with assms(3) show ?thesis by simp
next
  case False
  define s1 where "s1 = s0\<lparr>exportError := None, exportRunning := True, exportLog := [],
                    exportTotalRows := 0, perZipProgress := Map.empty,
                    exportTotalExpected := None, singleBuilder := []\<rparr>"
  define s2 where "s2 = precount env cfg s1"
  have "clean (trace s1)" using assms(1) by (simp add: s1_def clean_def)
  then have c2: "clean (trace s2)" unfolding s2_def by (rule clean_precount)
  obtain g s3 where z: "zipLoop env cfg (exportZipList cfg) s2 = (g, s3)"
    by (cases "zipLoop env cfg (exportZipList cfg) s2")
  with sound_zipLoop [OF c2, of env cfg "exportZipList cfg"] have snd: "sound (g, s3)" by simp
  have eq: "startExport env cfg s0 =
     (case (g, s3) of
        (Normal, s3) \<Rightarrow>
              let s4 = (if exportMode cfg = Single
                        then record_event
                               (Download (filePrefix cfg @ ''_'' @ suffixOf (ownerScope cfg)
                                            @ ''_multi_zips.csv'') (singleBuilder s3)) s3
                        else s3)
              in (Normal, startExport_finally (appendLog LogComplete s4))
          | (Throw e, s3) \<Rightarrow>
              (Normal, startExport_finally
                 (if name e = ''AbortError'' then appendLog LogCancelled s3
                  else appendLog (LogError (errorText e))
                         (s3\<lparr>exportError := Some (errorText e)\<rparr>)))
          | (Hang, s3) \<Rightarrow> (Hang, s3))"
    using False z by (simp add: startExport_def startExport_begin_def s1_def [symmetric] s2_def [symmetric])
  show ?thesis
  proof (cases g)
    case Normal
    with snd have "clean (trace s3)" by (simp add: sound_Normal)
    with Normal assms(2) have "clean (trace s)"
      unfolding eq by (auto simp: Let_def startExport_finally_def)
    from clean_no_failed [OF this assms(3)] assms(4) show ?thesis by simp
  next
    case Hang
    with snd have "clean (trace s3)" by (simp add: sound_Hang)
    with Hang assms(2) have "clean (trace s)" unfolding eq by auto
    from clean_no_failed [OF this assms(3)] assms(4) show ?thesis by simp
  next
    case (Throw e)
    have tr: "trace s = trace s3" and fN: "f = Normal"
      using Throw assms(2) unfolding eq by (auto simp: startExport_finally_def)
    have "\<not> clean (trace s3)"
      using clean_no_failed [OF _ assms(3)] assms(4) tr by auto
    with snd Throw have "hookFailed (trace s3) e" by (auto simp: sound_def)
    from hookFailed_last [OF this assms(3) [unfolded tr] assms(4)]
    have rest: "rest = []" and e: "e = Error (''Webhook HTTP '' @ showNat st)" by simp_all
    have n: "name e \<noteq> ''AbortError''" and t: "errorText e = ''Webhook HTTP '' @ showNat st"
      unfolding e by (simp_all add: Error_def errorText_def)
    from Throw assms(2) n t show ?thesis
      unfolding eq by (auto simp: startExport_finally_def appendLog_def rest fN)
  qed
qed


lemma demo_trace:
  "trace (snd (startExport demo_server demo_config idle)) =
     [CountQuery ''78701'', CountQuery ''78702'', CountQuery ''78701'', PageQuery ''78701'' 0] @
     [Post [mapFeature demo_feature] (PostStatus 500)] @ []"
  by code_simp

theorem webhook_failure_aborts_job_witness:
  "trace idle = [] \<and>
   trace (snd (startExport demo_server demo_config idle)) =
     [CountQuery ''78701'', CountQuery ''78702'', CountQuery ''78701'', PageQuery ''78701'' 0] @
     [Post [mapFeature demo_feature] (PostStatus 500)] @ [] \<and>
   \<not> ok 500 \<and>
   fst (startExport demo_server demo_config idle) = Normal \<and>
   \<not> exportRunning (snd (startExport demo_server demo_config idle)) \<and>
   exportError (snd (startExport demo_server demo_config idle)) = Some ''Webhook HTTP 500''"
proof -
  have h1: "trace idle = []" by (simp add: idle_def)
  have h2: "startExport demo_server demo_config idle =
      (fst (startExport demo_server demo_config idle), snd (startExport demo_server demo_config idle))"
    by simp
  have h4: "\<not> ok 500" by (simp add: ok_def)
  have sh: "showNat 500 = ''500''" by code_simp
  from webhook_failure_aborts_job [OF h1 h2 demo_trace h4] h1 h4 demo_trace sh
  show ?thesis by simp
qed


end
